theory Spec2Isabelle
  imports Main "HOL-Library.Multiset"
begin

section \<open>Errors and panics\<close>

text \<open>
  The two sentinel errors of \<^verbatim>\<open>depgraph.go\<close> and the two wrappers the code builds with
  \<^verbatim>\<open>fmt.Errorf("...%w", ...)\<close>: \<open>LookingUpDependency dep err\<close> is
  \<^verbatim>\<open>fmt.Errorf("looking up dependency \"%v\": %w", dep, err)\<close> (in \<^verbatim>\<open>validate\<close>) and
  \<open>ValidatingDependencyGraph err\<close> is
  \<^verbatim>\<open>fmt.Errorf("validating dependency graph: %w", err)\<close> (in \<^verbatim>\<open>ResolveIter\<close>).
\<close>

datatype 'a error =
    ErrCircularDependency
  | ErrUnknownDependency
  | LookingUpDependency 'a "'a error"
  | ValidatingDependencyGraph "'a error"

text \<open>\<^verbatim>\<open>errors.Is\<close>: the error itself or one of the errors it wraps is the target.\<close>

fun errors_Is :: "'a error \<Rightarrow> 'a error \<Rightarrow> bool" where
  "errors_Is ErrCircularDependency target = (ErrCircularDependency = target)"
| "errors_Is ErrUnknownDependency target = (ErrUnknownDependency = target)"
| "errors_Is (LookingUpDependency dep err) target =
     (LookingUpDependency dep err = target \<or> errors_Is err target)"
| "errors_Is (ValidatingDependencyGraph err) target =
     (ValidatingDependencyGraph err = target \<or> errors_Is err target)"

text \<open>The run-time panic of a slice index that is out of range.\<close>

datatype panic = IndexOutOfRange

section \<open>Data model\<close>

text \<open>
  \<^verbatim>\<open>depList[T] = map[T]struct{}\<close> is a set of \<open>T\<close>. The graph holds pointers
  \<^verbatim>\<open>*depEdge[T]\<close>, shared between the slice \<^verbatim>\<open>edges\<close> and the map \<^verbatim>\<open>edgeMap\<close>; a
  pointer is an address, the index of the struct in \<open>heap\<close>, the arena of the
  \<^verbatim>\<open>depEdge\<close> structs allocated by \<^verbatim>\<open>Add\<close>. \<open>edges\<close> is the content of the backing
  array of the slice \<^verbatim>\<open>dg.edges\<close>.
\<close>

type_synonym addr = nat

record 'a depEdge =
  name :: 'a
  deps :: "'a set"

record 'a DependencyGraph =
  heap :: "'a depEdge list"
  edges :: "addr list"
  edgeMap :: "'a \<rightharpoonup> addr"

definition NewDependencyGraph :: "'a DependencyGraph" where
  "NewDependencyGraph = \<lparr>heap = [], edges = [], edgeMap = Map.empty\<rparr>"

text \<open>
  What the Go run time chooses and the code does not: the zero value of \<open>T\<close>
  (\<^verbatim>\<open>var zero T\<close>) and the order in which \<^verbatim>\<open>range\<close> visits the keys of a map, which
  the language leaves unspecified. \<open>range_order rt S\<close> is the order in which the keys
  \<open>S\<close> of a map are visited.
\<close>

record 'a runtime =
  zero_value :: 'a
  range_order :: "'a set \<Rightarrow> 'a list"

section \<open>Add\<close>

text \<open>The loop \<^verbatim>\<open>for _, dep := range deps { edge.deps[dep] = struct{}{} }\<close>.\<close>

fun add_deps :: "'a list \<Rightarrow> 'a depEdge \<Rightarrow> 'a depEdge" where
  "add_deps [] edge = edge"
| "add_deps (dep # rest) edge = add_deps rest (edge\<lparr>deps := insert dep (deps edge)\<rparr>)"

definition Add :: "'a DependencyGraph \<Rightarrow> 'a \<Rightarrow> 'a list \<Rightarrow> 'a DependencyGraph" where
  "Add dg nm dl =
     (let (edge, dg1) =
        (case edgeMap dg nm of
           Some p \<Rightarrow> (p, dg)
         | None \<Rightarrow>
             (let p = length (heap dg) in
              (p, dg\<lparr>heap := heap dg @ [\<lparr>name = nm, deps = {}\<rparr>],
                     edgeMap := (edgeMap dg)(nm \<mapsto> p),
                     edges := edges dg @ [p]\<rparr>)))
      in dg1\<lparr>heap := (heap dg1)[edge := add_deps dl (heap dg1 ! edge)]\<rparr>)"

section \<open>validate\<close>

fun validate_deps :: "('a \<rightharpoonup> addr) \<Rightarrow> 'a list \<Rightarrow> 'a error option" where
  "validate_deps m [] = None"
| "validate_deps m (dep # rest) =
     (case m dep of
        None \<Rightarrow> Some (LookingUpDependency dep ErrUnknownDependency)
      | Some _ \<Rightarrow> validate_deps m rest)"

fun validate_edges :: "'a runtime \<Rightarrow> 'a DependencyGraph \<Rightarrow> 'a list \<Rightarrow> 'a error option" where
  "validate_edges rt dg [] = None"
| "validate_edges rt dg (k # ks) =
     (case edgeMap dg k of
        None \<Rightarrow> validate_edges rt dg ks
      | Some edge \<Rightarrow>
          (case validate_deps (edgeMap dg) (range_order rt (deps (heap dg ! edge))) of
             Some err \<Rightarrow> Some err
           | None \<Rightarrow> validate_edges rt dg ks))"

definition validate :: "'a runtime \<Rightarrow> 'a DependencyGraph \<Rightarrow> 'a error option" where
  "validate rt dg = validate_edges rt dg (range_order rt (dom (edgeMap dg)))"

section \<open>ResolveIter\<close>

text \<open>
  \<^verbatim>\<open>edges := dg.edges\<close> copies the slice header only: the local slice and \<^verbatim>\<open>dg.edges\<close>
  share one backing array, so every swap below is a write to the stored sequence. The
  loops therefore work on the list \<open>es\<close> that is written back to the field \<open>edges\<close>.
  \<^verbatim>\<open>refcounts\<close> is a \<^verbatim>\<open>map[T]int\<close>; reading an absent key gives 0.
\<close>

text \<open>\<^verbatim>\<open>edges[a], edges[b] = edges[b], edges[a]\<close>, with the bounds check of the run time.\<close>

definition swap :: "nat \<Rightarrow> nat \<Rightarrow> 'b list \<Rightarrow> panic + 'b list" where
  "swap a b xs =
     (if a < length xs \<and> b < length xs then Inr (xs[a := xs ! b, b := xs ! a])
      else Inl IndexOutOfRange)"

text \<open>\<^verbatim>\<open>for _, edge := range edges { refcounts[edge.name] = len(edge.deps) }\<close>\<close>

fun save_refcounts :: "'a depEdge list \<Rightarrow> addr list \<Rightarrow> ('a \<Rightarrow> int) \<Rightarrow> ('a \<Rightarrow> int)" where
  "save_refcounts h [] refcounts = refcounts"
| "save_refcounts h (edge # rest) refcounts =
     save_refcounts h rest (refcounts(name (h ! edge) := int (card (deps (h ! edge)))))"

text \<open>
  The first pass, \<^verbatim>\<open>for i, edge := range edges\<close>: an edge with no dependency is
  swapped to position \<open>fmax\<close>.
\<close>

function promote_free ::
  "'a depEdge list \<Rightarrow> nat \<Rightarrow> addr list \<Rightarrow> nat \<Rightarrow> panic + (addr list \<times> nat)" where
  "promote_free h i es fmax =
     (if i < length es then
        (if card (deps (h ! (es ! i))) = 0 then
           (case swap fmax i es of
              Inl p \<Rightarrow> Inl p
            | Inr es' \<Rightarrow> promote_free h (i + 1) es' (fmax + 1))
         else promote_free h (i + 1) es fmax)
      else Inr (es, fmax))"
  by pat_completeness auto
termination
  by (relation "measure (\<lambda>(h, i, es, fmax). length es - i)")
     (auto simp: swap_def split: if_splits)

declare promote_free.simps [simp del]

text \<open>
  The inner loop \<^verbatim>\<open>for i := fcur + 1; i < len(edges); i++\<close>, for the edge \<open>this\<close> just
  yielded.
\<close>

function scan ::
  "'a depEdge list \<Rightarrow> addr \<Rightarrow> nat \<Rightarrow> addr list \<Rightarrow> nat \<Rightarrow> ('a \<Rightarrow> int) \<Rightarrow>
   panic + (addr list \<times> nat \<times> ('a \<Rightarrow> int))" where
  "scan h this i es fmax refcounts =
     (if i < length es then
        (if name (h ! this) \<in> deps (h ! (es ! i)) then
           (let refcounts' =
                  refcounts(name (h ! (es ! i)) := refcounts (name (h ! (es ! i))) - 1)
            in if refcounts' (name (h ! (es ! i))) = 0 then
                 (case swap fmax i es of
                    Inl p \<Rightarrow> Inl p
                  | Inr es' \<Rightarrow> scan h this (i + 1) es' (fmax + 1) refcounts')
               else scan h this (i + 1) es fmax refcounts')
         else scan h this (i + 1) es fmax refcounts)
      else Inr (es, fmax, refcounts))"
  by pat_completeness auto
termination
  by (relation "measure (\<lambda>(h, this, i, es, fmax, refcounts). length es - i)")
     (auto simp: swap_def split: if_splits)

declare scan.simps [simp del]

text \<open>
  The consumer of the iterator: \<open>yield el err s\<close> is one call of \<^verbatim>\<open>yield(el, err)\<close> in
  the consumer's state \<open>s\<close>; it returns whether the consumer wants more, and its new
  state.
\<close>

type_synonym ('a, 's) yield = "'a \<Rightarrow> 'a error option \<Rightarrow> 's \<Rightarrow> bool \<times> 's"

text \<open>
  How the loop \<^verbatim>\<open>for fcur := 0; fcur < fmax; fcur++\<close> is left: by the \<^verbatim>\<open>return\<close> after a
  \<^verbatim>\<open>yield\<close> that answered false, or because \<open>fcur\<close> reached \<open>fmax\<close>.
\<close>

datatype 's loop_exit =
    Cancelled "addr list" nat 's
  | Exhausted "addr list" nat 's

lemma swap_length: "swap a b xs = Inr ys \<Longrightarrow> length ys = length xs"
  by (auto simp: swap_def split: if_splits)

lemma scan_length:
  "scan h this i es fmax refcounts = Inr (es', fmax', refcounts') \<Longrightarrow> length es' = length es"
proof (induction h this i es fmax refcounts rule: scan.induct)
  case (1 h this i es fmax refcounts)
  note eq = "1.prems"[unfolded scan.simps[of h this i es fmax refcounts]]
  show ?case
  proof (cases "i < length es")
    case False
    with eq show ?thesis by simp
  next
    case lt: True
    show ?thesis
    proof (cases "name (h ! this) \<in> deps (h ! (es ! i))")
      case False
      with lt eq "1.IH"(3) show ?thesis by simp
    next
      case mem: True
      define rc where "rc = refcounts(name (h ! (es ! i)) := refcounts (name (h ! (es ! i))) - 1)"
      show ?thesis
      proof (cases "rc (name (h ! (es ! i))) = 0")
        case False
        with lt mem eq have r: "scan h this (i + 1) es fmax rc = Inr (es', fmax', refcounts')"
          by (simp add: rc_def Let_def)
        from "1.IH"(2)[OF lt mem rc_def False r] show ?thesis .
      next
        case z: True
        from lt mem z eq obtain es1 where sw: "swap fmax i es = Inr es1"
          and r: "scan h this (i + 1) es1 (fmax + 1) rc = Inr (es', fmax', refcounts')"
          by (auto simp: rc_def Let_def split: sum.splits)
        from "1.IH"(1)[OF lt mem rc_def z sw r] swap_length[OF sw] show ?thesis by simp
      qed
    qed
  qed
qed

function resolve_loop ::
  "'a depEdge list \<Rightarrow> ('a, 's) yield \<Rightarrow> nat \<Rightarrow> addr list \<Rightarrow> nat \<Rightarrow> ('a \<Rightarrow> int) \<Rightarrow> 's \<Rightarrow>
   panic + 's loop_exit" where
  "resolve_loop h yield fcur es fmax refcounts s =
     (if fcur < fmax then
        (if fcur < length es then
           (let this = es ! fcur in
            case yield (name (h ! this)) None s of
              (False, s') \<Rightarrow> Inr (Cancelled es fmax s')
            | (True, s') \<Rightarrow>
                (case scan h this (fcur + 1) es fmax refcounts of
                   Inl p \<Rightarrow> Inl p
                 | Inr (es', fmax', refcounts') \<Rightarrow>
                     resolve_loop h yield (fcur + 1) es' fmax' refcounts' s'))
         else Inl IndexOutOfRange)
      else Inr (Exhausted es fmax s))"
  by pat_completeness auto
termination
  by (relation "measure (\<lambda>(h, yield, fcur, es, fmax, refcounts, s). length es - fcur)")
     (auto dest: scan_length)

declare resolve_loop.simps [simp del]

definition ResolveIter ::
  "'a runtime \<Rightarrow> 'a DependencyGraph \<Rightarrow> ('a, 's) yield \<Rightarrow> 's \<Rightarrow> panic + 'a DependencyGraph \<times> 's" where
  "ResolveIter rt dg yield s =
     (case validate rt dg of
        Some err \<Rightarrow>
          Inr (dg, snd (yield (zero_value rt) (Some (ValidatingDependencyGraph err)) s))
      | None \<Rightarrow>
          (let refcounts = save_refcounts (heap dg) (edges dg) (\<lambda>_. 0) in
           case promote_free (heap dg) 0 (edges dg) 0 of
             Inl p \<Rightarrow> Inl p
           | Inr (es1, fmax1) \<Rightarrow>
               (case resolve_loop (heap dg) yield 0 es1 fmax1 refcounts s of
                  Inl p \<Rightarrow> Inl p
                | Inr (Cancelled es fmax s') \<Rightarrow> Inr (dg\<lparr>edges := es\<rparr>, s')
                | Inr (Exhausted es fmax s') \<Rightarrow>
                    (if fmax \<noteq> length es then
                       Inr (dg\<lparr>edges := es\<rparr>,
                            snd (yield (zero_value rt) (Some ErrCircularDependency) s'))
                     else Inr (dg\<lparr>edges := es\<rparr>, s')))))"

section \<open>Resolve\<close>

text \<open>
  The body of \<^verbatim>\<open>for el, err := range dg.ResolveIter()\<close> as a consumer. Its state is the
  slice \<open>res\<close> and the value of a \<^verbatim>\<open>return\<close> statement the body has executed, if any;
  a result slice is \<open>None\<close> for \<^verbatim>\<open>nil\<close>.
\<close>

type_synonym 'a resolve_result = "'a list option \<times> 'a error option"

definition Resolve_body :: "('a, 'a list \<times> 'a resolve_result option) yield" where
  "Resolve_body el err s =
     (case s of (res, ret) \<Rightarrow>
        (case err of
           Some e \<Rightarrow> (False, (res, Some (None, Some e)))
         | None \<Rightarrow> (True, (res @ [el], ret))))"

definition Resolve ::
  "'a runtime \<Rightarrow> 'a DependencyGraph \<Rightarrow> panic + 'a DependencyGraph \<times> 'a resolve_result" where
  "Resolve rt dg =
     (case ResolveIter rt dg Resolve_body ([], None) of
        Inl p \<Rightarrow> Inl p
      | Inr (dg', (res, ret)) \<Rightarrow>
          Inr (dg', (case ret of Some r \<Rightarrow> r | None \<Rightarrow> (Some res, None))))"

lemma swap_Inr_iff:
  "swap a b xs = Inr ys \<longleftrightarrow> a < length xs \<and> b < length xs \<and> ys = xs[a := xs ! b, b := xs ! a]"
  by (auto simp: swap_def)

lemma swap_mset: "swap a b xs = Inr ys \<Longrightarrow> mset ys = mset xs"
  by (auto simp: swap_Inr_iff mset_swap)

subsection \<open>The loops, one equation per path\<close>

lemma promote_free_stop:
  "\<not> i < length es \<Longrightarrow> promote_free h i es fmax = Inr (es, fmax)"
  by (subst promote_free.simps) simp

lemma promote_free_skip:
  "i < length es \<Longrightarrow> card (deps (h ! (es ! i))) \<noteq> 0 \<Longrightarrow>
   promote_free h i es fmax = promote_free h (Suc i) es fmax"
  by (subst promote_free.simps) simp

lemma promote_free_swap:
  "i < length es \<Longrightarrow> card (deps (h ! (es ! i))) = 0 \<Longrightarrow>
   promote_free h i es fmax =
     (case swap fmax i es of Inl p \<Rightarrow> Inl p
      | Inr es' \<Rightarrow> promote_free h (Suc i) es' (Suc fmax))"
  by (subst promote_free.simps) (simp cong: sum.case_cong)

lemma promote_free_induct [consumes 0, case_names stop skip swap]:
  assumes "\<And>i es fmax. \<not> i < length es \<Longrightarrow> P i es fmax"
    and "\<And>i es fmax. i < length es \<Longrightarrow> card (deps (h ! (es ! i))) \<noteq> 0 \<Longrightarrow>
           P (Suc i) es fmax \<Longrightarrow> P i es fmax"
    and "\<And>i es fmax. i < length es \<Longrightarrow> card (deps (h ! (es ! i))) = 0 \<Longrightarrow>
           (\<And>es'. swap fmax i es = Inr es' \<Longrightarrow> P (Suc i) es' (Suc fmax)) \<Longrightarrow> P i es fmax"
  shows "P i es fmax"
proof -
  have "\<forall>i es fmax. length es - i = n \<longrightarrow> P i es fmax" for n
  proof (induction n rule: less_induct)
    case (less n)
    show ?case
    proof (intro allI impI)
    fix i :: nat and es :: "addr list" and fmax :: nat
    assume prems: "length es - i = n"
    have IH: "P i es fmax" if "length es - i < n" for i es fmax
      using less.IH[OF that] by blast
    show "P i es fmax"
    proof (cases "i < length es")
      case False
      then show ?thesis by (rule assms(1))
    next
      case lt: True
      show ?thesis
      proof (cases "card (deps (h ! (es ! i))) = 0")
        case False
        from lt prems have "length es - Suc i < n" by simp
        from assms(2)[OF lt False IH[OF this]] show ?thesis .
      next
        case True
        show ?thesis
        proof (rule assms(3)[OF lt True])
          fix es' assume "swap fmax i es = Inr es'"
          then have "length es' = length es" by (rule swap_length)
          with lt prems have "length es' - Suc i < n" by simp
          from IH[OF this] show "P (Suc i) es' (Suc fmax)" .
        qed
      qed
    qed
    qed
  qed
  then show ?thesis by simp
qed

lemma scan_stop:
  "\<not> i < length es \<Longrightarrow> scan h this i es fmax rc = Inr (es, fmax, rc)"
  by (subst scan.simps) simp

lemma scan_skip:
  "i < length es \<Longrightarrow> name (h ! this) \<notin> deps (h ! (es ! i)) \<Longrightarrow>
   scan h this i es fmax rc = scan h this (Suc i) es fmax rc"
  by (subst scan.simps) simp

lemma scan_dec:
  "i < length es \<Longrightarrow> name (h ! this) \<in> deps (h ! (es ! i)) \<Longrightarrow>
   rc (name (h ! (es ! i))) \<noteq> 1 \<Longrightarrow>
   scan h this i es fmax rc =
     scan h this (Suc i) es fmax (rc(name (h ! (es ! i)) := rc (name (h ! (es ! i))) - 1))"
  by (subst scan.simps) (simp add: Let_def)

lemma scan_swap:
  "i < length es \<Longrightarrow> name (h ! this) \<in> deps (h ! (es ! i)) \<Longrightarrow>
   rc (name (h ! (es ! i))) = 1 \<Longrightarrow>
   scan h this i es fmax rc =
     (case swap fmax i es of Inl p \<Rightarrow> Inl p
      | Inr es' \<Rightarrow> scan h this (Suc i) es' (Suc fmax) (rc(name (h ! (es ! i)) := 0)))"
  by (subst scan.simps) (simp add: Let_def cong: sum.case_cong)

lemma scan_induct [consumes 0, case_names stop skip dec swap]:
  assumes "\<And>i es fmax rc. \<not> i < length es \<Longrightarrow> P i es fmax rc"
    and "\<And>i es fmax rc. i < length es \<Longrightarrow> name (h ! this) \<notin> deps (h ! (es ! i)) \<Longrightarrow>
           P (Suc i) es fmax rc \<Longrightarrow> P i es fmax rc"
    and "\<And>i es fmax rc. i < length es \<Longrightarrow> name (h ! this) \<in> deps (h ! (es ! i)) \<Longrightarrow>
           rc (name (h ! (es ! i))) \<noteq> 1 \<Longrightarrow>
           P (Suc i) es fmax (rc(name (h ! (es ! i)) := rc (name (h ! (es ! i))) - 1)) \<Longrightarrow>
           P i es fmax rc"
    and "\<And>i es fmax rc. i < length es \<Longrightarrow> name (h ! this) \<in> deps (h ! (es ! i)) \<Longrightarrow>
           rc (name (h ! (es ! i))) = 1 \<Longrightarrow>
           (\<And>es'. swap fmax i es = Inr es' \<Longrightarrow>
                  P (Suc i) es' (Suc fmax) (rc(name (h ! (es ! i)) := 0))) \<Longrightarrow>
           P i es fmax rc"
  shows "P i es fmax (rc :: 'a \<Rightarrow> int)"
proof -
  have "\<forall>i es fmax rc. length es - i = n \<longrightarrow> P i es fmax rc" for n
  proof (induction n rule: less_induct)
    case (less n)
    show ?case
    proof (intro allI impI)
    fix i :: nat and es :: "addr list" and fmax :: nat and rc :: "'a \<Rightarrow> int"
    assume prems: "length es - i = n"
    have IH: "P i es fmax rc" if "length es - i < n" for i es fmax rc
      using less.IH[OF that] by blast
    show "P i es fmax rc"
    proof (cases "i < length es")
      case False
      then show ?thesis by (rule assms(1))
    next
      case lt: True
      with prems have m: "length es - Suc i < n" by simp
      show ?thesis
      proof (cases "name (h ! this) \<in> deps (h ! (es ! i))")
        case False
        from assms(2)[OF lt False IH[OF m]] show ?thesis .
      next
        case mem: True
        show ?thesis
        proof (cases "rc (name (h ! (es ! i))) = 1")
          case False
          show ?thesis by (rule assms(3)) (fact lt, fact mem, fact False, rule IH[OF m])
        next
          case True
          show ?thesis
          proof (rule assms(4), fact lt, fact mem, fact True)
            fix es' assume "swap fmax i es = Inr es'"
            then have "length es' = length es" by (rule swap_length)
            with lt prems have "length es' - Suc i < n" by simp
            from IH[OF this]
            show "P (Suc i) es' (Suc fmax) (rc(name (h ! (es ! i)) := 0))" .
          qed
        qed
      qed
    qed
    qed
  qed
  then show ?thesis by simp
qed

lemma resolve_loop_stop:
  "\<not> fcur < fmax \<Longrightarrow> resolve_loop h yield fcur es fmax rc s = Inr (Exhausted es fmax s)"
  by (subst resolve_loop.simps) simp

lemma resolve_loop_panic:
  "fcur < fmax \<Longrightarrow> \<not> fcur < length es \<Longrightarrow>
   resolve_loop h yield fcur es fmax rc s = Inl IndexOutOfRange"
  by (subst resolve_loop.simps) simp

lemma resolve_loop_cancel:
  "fcur < fmax \<Longrightarrow> fcur < length es \<Longrightarrow>
   yield (name (h ! (es ! fcur))) None s = (False, s') \<Longrightarrow>
   resolve_loop h yield fcur es fmax rc s = Inr (Cancelled es fmax s')"
  by (subst resolve_loop.simps) (simp add: Let_def)

lemma resolve_loop_step:
  "fcur < fmax \<Longrightarrow> fcur < length es \<Longrightarrow>
   yield (name (h ! (es ! fcur))) None s = (True, s') \<Longrightarrow>
   resolve_loop h yield fcur es fmax rc s =
     (case scan h (es ! fcur) (Suc fcur) es fmax rc of
        Inl p \<Rightarrow> Inl p
      | Inr (es', fmax', rc') \<Rightarrow> resolve_loop h yield (Suc fcur) es' fmax' rc' s')"
  by (subst resolve_loop.simps) (simp add: Let_def cong: sum.case_cong)

lemma resolve_loop_induct [consumes 0, case_names stop panic cancel step]:
  assumes "\<And>fcur es fmax rc s. \<not> fcur < fmax \<Longrightarrow> P fcur es fmax rc s"
    and "\<And>fcur es fmax rc s. fcur < fmax \<Longrightarrow> \<not> fcur < length es \<Longrightarrow> P fcur es fmax rc s"
    and "\<And>fcur es fmax rc s s'. fcur < fmax \<Longrightarrow> fcur < length es \<Longrightarrow>
           yield (name (h ! (es ! fcur))) None s = (False, s') \<Longrightarrow> P fcur es fmax rc s"
    and "\<And>fcur es fmax rc s s'. fcur < fmax \<Longrightarrow> fcur < length es \<Longrightarrow>
           yield (name (h ! (es ! fcur))) None s = (True, s') \<Longrightarrow>
           (\<And>es' fmax' rc'. scan h (es ! fcur) (Suc fcur) es fmax rc = Inr (es', fmax', rc') \<Longrightarrow>
              P (Suc fcur) es' fmax' rc' s') \<Longrightarrow>
           P fcur es fmax rc s"
  shows "P fcur es fmax (rc :: 'a \<Rightarrow> int) (s :: 's)"
proof -
  have "\<forall>fcur es fmax rc s. length es - fcur = n \<longrightarrow> P fcur es fmax rc s" for n
  proof (induction n rule: less_induct)
    case (less n)
    show ?case
    proof (intro allI impI)
    fix fcur :: nat and es :: "addr list" and fmax :: nat and rc :: "'a \<Rightarrow> int" and s :: 's
    assume prems: "length es - fcur = n"
    have IH: "P fcur es fmax rc s" if "length es - fcur < n" for fcur es fmax rc s
      using less.IH[OF that] by blast
    show "P fcur es fmax rc s"
    proof (cases "fcur < fmax")
      case False
      then show ?thesis by (rule assms(1))
    next
      case lt: True
      show ?thesis
      proof (cases "fcur < length es")
        case False
        with lt show ?thesis by (rule assms(2))
      next
        case len: True
        obtain b s' where y: "yield (name (h ! (es ! fcur))) None s = (b, s')"
          by (cases "yield (name (h ! (es ! fcur))) None s") auto
        show ?thesis
        proof (cases b)
          case False
          with y have "yield (name (h ! (es ! fcur))) None s = (False, s')" by simp
          from assms(3)[OF lt len this] show ?thesis .
        next
          case True
          with y have y': "yield (name (h ! (es ! fcur))) None s = (True, s')" by simp
          show ?thesis
          proof (rule assms(4)[OF lt len y'])
            fix es' fmax' rc'
            assume "scan h (es ! fcur) (Suc fcur) es fmax rc = Inr (es', fmax', rc')"
            then have "length es' = length es" by (rule scan_length)
            with len prems have "length es' - Suc fcur < n" by simp
            from IH[OF this] show "P (Suc fcur) es' fmax' rc' s'" .
          qed
        qed
      qed
    qed
    qed
  qed
  then show ?thesis by simp
qed

section \<open>Observing a resolution\<close>

fun exit_edges :: "'s loop_exit \<Rightarrow> addr list" where
  "exit_edges (Cancelled es fmax s) = es"
| "exit_edges (Exhausted es fmax s) = es"

fun exit_state :: "'s loop_exit \<Rightarrow> 's" where
  "exit_state (Cancelled es fmax s) = s"
| "exit_state (Exhausted es fmax s) = s"

text \<open>
  A consumer that behaves as \<open>yield\<close> and keeps the list of the calls made to it: the
  element, the error and the answer of each.
\<close>

definition recording ::
  "('a, 's) yield \<Rightarrow> ('a, 's \<times> ('a \<times> 'a error option \<times> bool) list) yield" where
  "recording yield el err st =
     (case st of (s, tr) \<Rightarrow>
        (case yield el err s of (continue, s') \<Rightarrow> (continue, (s', tr @ [(el, err, continue)]))))"

text \<open>What a call returned, without the graph.\<close>

definition outcome :: "panic + 'a DependencyGraph \<times> 'r \<Rightarrow> panic + 'r" where
  "outcome r = map_sum id snd r"

text \<open>The names of the stored edge sequence, in order.\<close>

definition stored_names :: "'a DependencyGraph \<Rightarrow> 'a list" where
  "stored_names dg = map (\<lambda>p. name (heap dg ! p)) (edges dg)"

text \<open>
  The dependencies that \<^verbatim>\<open>validate\<close> looks for: members of the dependency set of an
  edge of \<open>edgeMap\<close> that are no key of \<open>edgeMap\<close>.
\<close>

definition unknown_deps :: "'a DependencyGraph \<Rightarrow> 'a set" where
  "unknown_deps dg =
     {d. \<exists>k p. edgeMap dg k = Some p \<and> d \<in> deps (heap dg ! p) \<and> edgeMap dg d = None}"

text \<open>
  \<open>range_order\<close> visits exactly the keys of each map that \<^verbatim>\<open>validate\<close> ranges over.
\<close>

definition range_ok :: "'a runtime \<Rightarrow> 'a DependencyGraph \<Rightarrow> bool" where
  "range_ok rt dg \<longleftrightarrow>
     set (range_order rt (dom (edgeMap dg))) = dom (edgeMap dg) \<and>
     (\<forall>k p. edgeMap dg k = Some p \<longrightarrow>
        set (range_order rt (deps (heap dg ! p))) = deps (heap dg ! p))"

section \<open>What every resolution preserves\<close>

lemma promote_free_mset:
  "promote_free h i es fmax = Inr (es', fmax') \<Longrightarrow> mset es' = mset es"
proof (induction i es fmax rule: promote_free_induct[where h = h])
  case (stop i es fmax)
  then show ?case by (simp add: promote_free_stop)
next
  case (skip i es fmax)
  then show ?case by (simp add: promote_free_skip)
next
  case (swap i es fmax)
  then show ?case
    by (auto simp: promote_free_swap swap_mset split: sum.splits)
qed

lemma scan_mset:
  "scan h this i es fmax rc = Inr (es', fmax', rc') \<Longrightarrow> mset es' = mset es"
proof (induction i es fmax rc rule: scan_induct[where h = h and this = this])
  case (stop i es fmax rc)
  then show ?case by (simp add: scan_stop)
next
  case (skip i es fmax rc)
  then show ?case by (simp add: scan_skip)
next
  case (dec i es fmax rc)
  from dec.prems dec.hyps
  have "scan h this (Suc i) es fmax (rc(name (h ! (es ! i)) := rc (name (h ! (es ! i))) - 1)) =
        Inr (es', fmax', rc')"
    by (simp add: scan_dec)
  then show ?case by (rule dec.IH)
next
  case (swap i es fmax rc)
  from swap.prems swap.hyps obtain x where sw: "swap fmax i es = Inr x"
    and r: "scan h this (Suc i) x (Suc fmax) (rc(name (h ! (es ! i)) := 0)) = Inr (es', fmax', rc')"
    by (auto simp: scan_swap split: sum.splits)
  from swap.IH[OF sw r] swap_mset[OF sw] show ?case by simp
qed

lemma resolve_loop_mset:
  "resolve_loop h yield fcur es fmax rc s = Inr ex \<Longrightarrow> mset (exit_edges ex) = mset es"
proof (induction fcur es fmax rc s rule: resolve_loop_induct[where h = h and yield = yield])
  case (stop fcur es fmax rc s)
  then show ?case by (auto simp: resolve_loop_stop)
next
  case (panic fcur es fmax rc s)
  then show ?case by (simp add: resolve_loop_panic)
next
  case (cancel fcur es fmax rc s s')
  then show ?case by (auto simp: resolve_loop_cancel)
next
  case (step fcur es fmax rc s s')
  then show ?case
    by (auto simp: resolve_loop_step split: sum.splits dest: scan_mset)
qed

lemma ResolveIter_cases [consumes 1, case_names invalid cancelled circular complete]:
  assumes "ResolveIter rt dg yield s = Inr (dg', s')"
  obtains
    err where "validate rt dg = Some err" "dg' = dg"
      "s' = snd (yield (zero_value rt) (Some (ValidatingDependencyGraph err)) s)"
  | es1 fmax1 es fmax where "validate rt dg = None"
      "promote_free (heap dg) 0 (edges dg) 0 = Inr (es1, fmax1)"
      "resolve_loop (heap dg) yield 0 es1 fmax1
         (save_refcounts (heap dg) (edges dg) (\<lambda>_. 0)) s = Inr (Cancelled es fmax s')"
      "dg' = dg\<lparr>edges := es\<rparr>"
  | es1 fmax1 es fmax s1 where "validate rt dg = None"
      "promote_free (heap dg) 0 (edges dg) 0 = Inr (es1, fmax1)"
      "resolve_loop (heap dg) yield 0 es1 fmax1
         (save_refcounts (heap dg) (edges dg) (\<lambda>_. 0)) s = Inr (Exhausted es fmax s1)"
      "fmax \<noteq> length es" "dg' = dg\<lparr>edges := es\<rparr>"
      "s' = snd (yield (zero_value rt) (Some ErrCircularDependency) s1)"
  | es1 fmax1 es where "validate rt dg = None"
      "promote_free (heap dg) 0 (edges dg) 0 = Inr (es1, fmax1)"
      "resolve_loop (heap dg) yield 0 es1 fmax1
         (save_refcounts (heap dg) (edges dg) (\<lambda>_. 0)) s = Inr (Exhausted es (length es) s')"
      "dg' = dg\<lparr>edges := es\<rparr>"
proof (cases "validate rt dg")
  case (Some err)
  with assms have "dg' = dg \<and> s' = snd (yield (zero_value rt) (Some (ValidatingDependencyGraph err)) s)"
    by (simp add: ResolveIter_def)
  with Some that(1) show thesis by blast
next
  case None
  let ?rc0 = "save_refcounts (heap dg) (edges dg) (\<lambda>_. 0)"
  from assms None have eq: "(case promote_free (heap dg) 0 (edges dg) 0 of
             Inl p \<Rightarrow> Inl p
           | Inr (es1, fmax1) \<Rightarrow>
               (case resolve_loop (heap dg) yield 0 es1 fmax1 ?rc0 s of
                  Inl p \<Rightarrow> Inl p
                | Inr (Cancelled es fmax s') \<Rightarrow> Inr (dg\<lparr>edges := es\<rparr>, s')
                | Inr (Exhausted es fmax s') \<Rightarrow>
                    (if fmax \<noteq> length es then
                       Inr (dg\<lparr>edges := es\<rparr>,
                            snd (yield (zero_value rt) (Some ErrCircularDependency) s'))
                     else Inr (dg\<lparr>edges := es\<rparr>, s')))) = Inr (dg', s')"
    by (simp add: ResolveIter_def Let_def)
  then obtain es1 fmax1 where
    p: "promote_free (heap dg) 0 (edges dg) 0 = Inr (es1, fmax1)"
    by (cases "promote_free (heap dg) 0 (edges dg) 0") auto
  with eq obtain ex where
    l: "resolve_loop (heap dg) yield 0 es1 fmax1 ?rc0 s = Inr ex"
    by (cases "resolve_loop (heap dg) yield 0 es1 fmax1 ?rc0 s") auto
  show thesis
  proof (cases ex)
    case (Cancelled es fmax s2)
    with eq p l have "dg' = dg\<lparr>edges := es\<rparr>" "s2 = s'" by simp_all
    with Cancelled p l None that(2) show thesis by blast
  next
    case (Exhausted es fmax s2)
    show thesis
    proof (cases "fmax = length es")
      case True
      with Exhausted eq p l have "dg' = dg\<lparr>edges := es\<rparr>" "s2 = s'" by simp_all
      with True Exhausted p l None that(4) show thesis by blast
    next
      case False
      with Exhausted eq p l have "dg' = dg\<lparr>edges := es\<rparr>"
        "s' = snd (yield (zero_value rt) (Some ErrCircularDependency) s2)" by simp_all
      with False Exhausted p l None that(3) show thesis by blast
    qed
  qed
qed

lemma ResolveIter_frame:
  assumes "ResolveIter rt dg yield s = Inr (dg', s')"
  shows "heap dg' = heap dg \<and> edgeMap dg' = edgeMap dg \<and> mset (edges dg') = mset (edges dg)"
  using assms
proof (cases rule: ResolveIter_cases)
  case (invalid err)
  then show ?thesis by simp
next
  case (cancelled es1 fmax1 es fmax)
  from promote_free_mset[OF cancelled(2)] resolve_loop_mset[OF cancelled(3)] cancelled(4)
  show ?thesis by simp
next
  case (circular es1 fmax1 es fmax s1)
  from promote_free_mset[OF circular(2)] resolve_loop_mset[OF circular(3)] circular(5)
  show ?thesis by simp
next
  case (complete es1 fmax1 es)
  from promote_free_mset[OF complete(2)] resolve_loop_mset[OF complete(3)] complete(4)
  show ?thesis by simp
qed

lemma Resolve_Inr:
  assumes "Resolve rt dg = Inr (dg', r)"
  obtains res ret where "ResolveIter rt dg Resolve_body ([], None) = Inr (dg', (res, ret))"
    "r = (case ret of Some r' \<Rightarrow> r' | None \<Rightarrow> (Some res, None))"
  using assms by (auto simp: Resolve_def split: sum.splits)

text \<open>The errors among the calls a recording consumer has received, in order.\<close>

fun yielded_errors :: "('a \<times> 'a error option \<times> bool) list \<Rightarrow> 'a error list" where
  "yielded_errors [] = []"
| "yielded_errors ((el, None, b) # tr) = yielded_errors tr"
| "yielded_errors ((el, Some e, b) # tr) = e # yielded_errors tr"

section \<open>Graphs and a run time for the examples\<close>

text \<open>A sequence of calls of \<^verbatim>\<open>Add\<close>, each a name with its dependencies.\<close>

definition adds :: "'a DependencyGraph \<Rightarrow> ('a \<times> 'a list) list \<Rightarrow> 'a DependencyGraph" where
  "adds dg calls = foldl (\<lambda>g (nm, dl). Add g nm dl) dg calls"

text \<open>
  A run time whose \<^verbatim>\<open>range\<close> visits the keys of every map in the order of the
  enumeration of the key type.
\<close>

definition enum_runtime :: "'a::enum \<Rightarrow> 'a runtime" where
  "enum_runtime z = \<lparr>zero_value = z, range_order = (\<lambda>S. filter (\<lambda>x. x \<in> S) Enum.enum)\<rparr>"

lemma range_ok_enum_runtime: "range_ok (enum_runtime z) dg"
  by (auto simp: range_ok_def enum_runtime_def enum_UNIV)

lemma outcome_Inr: "outcome r = Inr x \<Longrightarrow> \<exists>dg'. r = Inr (dg', x)"
  by (cases r) (auto simp: outcome_def)

lemma yielded_errors_append:
  "yielded_errors (tr @ tr') = yielded_errors tr @ yielded_errors tr'"
  by (induction tr rule: yielded_errors.induct) simp_all

section \<open>Resolution and the stored edges\<close>

text \<open>
  C6, as the spec states it, fails: after a resolution of the graph built by
  \<^verbatim>\<open>Add("B", "A"); Add("A")\<close> the stored sequence holds the two edges in the other
  order.
\<close>

theorem resolve_keeps_stored_sequence_counterexample:
  "edges (adds NewDependencyGraph [(CHR ''B'', [CHR ''A'']), (CHR ''A'', [])]) = [0, 1] \<and>
   map_sum id (\<lambda>r. (edges (fst r), snd r))
     (Resolve (enum_runtime (CHR 0x00))
        (adds NewDependencyGraph [(CHR ''B'', [CHR ''A'']), (CHR ''A'', [])])) =
   Inr ([1, 0], Some [CHR ''A'', CHR ''B''], None)"
  by code_simp

text \<open>
  C6, amended: a resolution, whether it succeeds, fails or is cancelled by its
  consumer, changes no \<^verbatim>\<open>depEdge\<close> struct (no name and no dependency set) and not the
  lookup map; the stored edge sequence holds the same edges afterwards, each as often
  as before, possibly in another order.
\<close>

theorem resolution_permutes_stored_edges:
  "(ResolveIter rt dg yield s = Inr (dg', s') \<longrightarrow>
      heap dg' = heap dg \<and> edgeMap dg' = edgeMap dg \<and> mset (edges dg') = mset (edges dg)) \<and>
   (Resolve rt dg = Inr (dg'', r) \<longrightarrow>
      heap dg'' = heap dg \<and> edgeMap dg'' = edgeMap dg \<and> mset (edges dg'') = mset (edges dg))"
proof (intro conjI impI)
  assume "ResolveIter rt dg yield s = Inr (dg', s')"
  then have f: "heap dg' = heap dg \<and> edgeMap dg' = edgeMap dg \<and> mset (edges dg') = mset (edges dg)"
    by (rule ResolveIter_frame)
  from f show "heap dg' = heap dg" by simp
  from f show "edgeMap dg' = edgeMap dg" by simp
  from f show "mset (edges dg') = mset (edges dg)" by simp
next
  assume "Resolve rt dg = Inr (dg'', r)"
  then obtain res ret where
    "ResolveIter rt dg Resolve_body ([], None) = Inr (dg'', (res, ret))"
    by (rule Resolve_Inr)
  then have f: "heap dg'' = heap dg \<and> edgeMap dg'' = edgeMap dg \<and>
      mset (edges dg'') = mset (edges dg)"
    by (rule ResolveIter_frame)
  from f show "heap dg'' = heap dg" by simp
  from f show "edgeMap dg'' = edgeMap dg" by simp
  from f show "mset (edges dg'') = mset (edges dg)" by simp
qed

theorem resolution_permutes_stored_edges_witness:
  "(\<exists>dg' s'. ResolveIter (enum_runtime (CHR 0x00))
        (adds NewDependencyGraph [(CHR ''B'', [CHR ''A'']), (CHR ''A'', [])])
        (\<lambda>el err s. (False, el # s)) [] = Inr (dg', s') \<and>
      heap dg' = heap (adds NewDependencyGraph [(CHR ''B'', [CHR ''A'']), (CHR ''A'', [])]) \<and>
      edgeMap dg' = edgeMap (adds NewDependencyGraph [(CHR ''B'', [CHR ''A'']), (CHR ''A'', [])]) \<and>
      mset (edges dg') = mset (edges (adds NewDependencyGraph [(CHR ''B'', [CHR ''A'']), (CHR ''A'', [])]))) \<and>
   (\<exists>dg'' r. Resolve (enum_runtime (CHR 0x00))
        (adds NewDependencyGraph [(CHR ''B'', [CHR ''A'']), (CHR ''A'', [])]) = Inr (dg'', r) \<and>
      heap dg'' = heap (adds NewDependencyGraph [(CHR ''B'', [CHR ''A'']), (CHR ''A'', [])]) \<and>
      edgeMap dg'' = edgeMap (adds NewDependencyGraph [(CHR ''B'', [CHR ''A'']), (CHR ''A'', [])]) \<and>
      mset (edges dg'') = mset (edges (adds NewDependencyGraph [(CHR ''B'', [CHR ''A'']), (CHR ''A'', [])])))"
proof -
  let ?g = "adds NewDependencyGraph [(CHR ''B'', [CHR ''A'']), (CHR ''A'', [])]"
  let ?rt = "enum_runtime (CHR 0x00)"
  have "outcome (ResolveIter ?rt ?g (\<lambda>el err s. (False, el # s)) []) = Inr [CHR ''A'']"
    by code_simp
  then obtain dg' where 1: "ResolveIter ?rt ?g (\<lambda>el err s. (False, el # s)) [] = Inr (dg', [CHR ''A''])"
    by (blast dest: outcome_Inr)
  have "outcome (Resolve ?rt ?g) = Inr (Some [CHR ''A'', CHR ''B''], None)"
    by code_simp
  then obtain dg'' where 2: "Resolve ?rt ?g = Inr (dg'', Some [CHR ''A'', CHR ''B''], None)"
    by (blast dest: outcome_Inr)
  from 1 2 resolution_permutes_stored_edges[of ?rt ?g "\<lambda>el err s. (False, el # s)" "[]" dg' "[CHR ''A'']" dg'' "(Some [CHR ''A'', CHR ''B''], None)"]
  show ?thesis by blast
qed

section \<open>The consumer during a resolution\<close>

lemma resolve_loop_consumer_invariant:
  assumes step: "\<And>el err s. Q s \<Longrightarrow> Q (snd (yield el err s))"
  shows "Q s \<Longrightarrow> resolve_loop h yield fcur es fmax rc s = Inr ex \<Longrightarrow> Q (exit_state ex)"
proof (induction fcur es fmax rc s rule: resolve_loop_induct[where h = h and yield = yield])
  case (stop fcur es fmax rc s)
  then show ?case by (auto simp: resolve_loop_stop)
next
  case (panic fcur es fmax rc s)
  then show ?case by (simp add: resolve_loop_panic)
next
  case (cancel fcur es fmax rc s s')
  from step[OF cancel.prems(1), of "name (h ! (es ! fcur))" None] cancel.hyps(3)
  have "Q s'" by simp
  with cancel show ?case by (auto simp: resolve_loop_cancel)
next
  case (step fcur es fmax rc s s')
  from assms[OF step.prems(1), of "name (h ! (es ! fcur))" None] step.hyps(3)
  have q: "Q s'" by simp
  from step.prems(2) step.hyps(1,2,3) obtain es' fmax' rc' where
    sc: "scan h (es ! fcur) (Suc fcur) es fmax rc = Inr (es', fmax', rc')" and
    r: "resolve_loop h yield (Suc fcur) es' fmax' rc' s' = Inr ex"
    by (auto simp: resolve_loop_step split: sum.splits)
  from step.IH[OF sc q r] show ?case .
qed

lemma ResolveIter_consumer_invariant:
  assumes step: "\<And>el err s. Q s \<Longrightarrow> Q (snd (yield el err s))"
    and "Q s" and "ResolveIter rt dg yield s = Inr (dg', s')"
  shows "Q s'"
  using assms(3)
proof (cases rule: ResolveIter_cases)
  case (invalid err)
  with step[OF assms(2)] show ?thesis by simp
next
  case (cancelled es1 fmax1 es fmax)
  from resolve_loop_consumer_invariant[of Q yield, OF step assms(2) cancelled(3)]
  show ?thesis by simp
next
  case (circular es1 fmax1 es fmax s1)
  from resolve_loop_consumer_invariant[of Q yield, OF step assms(2) circular(3)]
  have "Q s1" by simp
  from step[OF this] circular(6) show ?thesis by simp
next
  case (complete es1 fmax1 es)
  from resolve_loop_consumer_invariant[of Q yield, OF step assms(2) complete(3)]
  show ?thesis by simp
qed

section \<open>No partial result on error\<close>

text \<open>
  C8: when \<^verbatim>\<open>Resolve\<close> returns an error, the slice it returns is \<^verbatim>\<open>nil\<close>, whatever the
  iterator has yielded before the error.
\<close>

theorem resolve_error_returns_nil:
  assumes "Resolve rt dg = Inr (dg', res, Some err)"
  shows "res = None"
proof -
  from assms obtain acc ret where
    it: "ResolveIter rt dg Resolve_body ([], None) = Inr (dg', (acc, ret))" and
    r: "(res, Some err) = (case ret of Some r' \<Rightarrow> r' | None \<Rightarrow> (Some acc, None))"
    by (rule Resolve_Inr)
  let ?Q = "\<lambda>s :: 'a list \<times> 'a resolve_result option.
    snd s = None \<or> (\<exists>e. snd s = Some (None, Some e))"
  have "?Q (acc, ret)"
  proof (rule ResolveIter_consumer_invariant[of ?Q Resolve_body, OF _ _ it])
    show "?Q ([], None)" by simp
  next
    fix el :: 'a and e :: "'a error option" and s :: "'a list \<times> 'a resolve_result option"
    assume "?Q s"
    then show "?Q (snd (Resolve_body el e s))"
      by (cases s; cases e) (auto simp: Resolve_body_def)
  qed
  with r show ?thesis by (cases ret) auto
qed

theorem resolve_error_returns_nil_witness:
  "\<exists>dg' res. Resolve (enum_runtime (CHR 0x00))
       (adds NewDependencyGraph
          [(CHR ''A'', []), (CHR ''B'', [CHR ''C'']), (CHR ''C'', [CHR ''B''])]) =
       Inr (dg', res, Some ErrCircularDependency) \<and> res = None \<and>
     outcome (ResolveIter (enum_runtime (CHR 0x00))
       (adds NewDependencyGraph
          [(CHR ''A'', []), (CHR ''B'', [CHR ''C'']), (CHR ''C'', [CHR ''B''])])
       (recording (\<lambda>el err s. (True, s))) ((), [])) =
       Inr ((), [(CHR ''A'', None, True), (CHR 0x00, Some ErrCircularDependency, True)])"
proof -
  let ?g = "adds NewDependencyGraph
          [(CHR ''A'', []), (CHR ''B'', [CHR ''C'']), (CHR ''C'', [CHR ''B''])]"
  let ?rt = "enum_runtime (CHR 0x00)"
  have "outcome (Resolve ?rt ?g) = Inr (None, Some ErrCircularDependency)"
    by code_simp
  then obtain dg' where h: "Resolve ?rt ?g = Inr (dg', None, Some ErrCircularDependency)"
    by (blast dest: outcome_Inr)
  have t: "outcome (ResolveIter ?rt ?g (recording (\<lambda>el err s. (True, s))) ((), [])) =
       Inr ((), [(CHR ''A'', None, True), (CHR 0x00, Some ErrCircularDependency, True)])"
    by code_simp
  from resolve_error_returns_nil[OF h] h t show ?thesis by blast
qed

section \<open>Cancellation\<close>

lemma resolve_loop_recording:
  "resolve_loop h (recording yield) fcur es fmax rc st = Inr ex \<Longrightarrow>
   \<exists>tr'. snd (exit_state ex) = snd st @ tr' \<and> yielded_errors tr' = [] \<and>
     (case ex of Exhausted _ _ _ \<Rightarrow> list_all (\<lambda>x. snd (snd x)) tr' | Cancelled _ _ _ \<Rightarrow> True)"
proof (induction fcur es fmax rc st rule: resolve_loop_induct[where h = h and yield = "recording yield"])
  case (stop fcur es fmax rc st)
  then show ?case by (auto simp: resolve_loop_stop)
next
  case (panic fcur es fmax rc st)
  then show ?case by (simp add: resolve_loop_panic)
next
  case (cancel fcur es fmax rc st st')
  from cancel.hyps(3) have "snd st' = snd st @ [(name (h ! (es ! fcur)), None, False)]"
    by (cases st) (auto simp: recording_def split: prod.splits)
  with cancel show ?case by (auto simp: resolve_loop_cancel)
next
  case (step fcur es fmax rc st st')
  from step.hyps(3) have st': "snd st' = snd st @ [(name (h ! (es ! fcur)), None, True)]"
    by (cases st) (auto simp: recording_def split: prod.splits)
  from step.prems step.hyps(1,2,3) obtain es' fmax' rc' where
    sc: "scan h (es ! fcur) (Suc fcur) es fmax rc = Inr (es', fmax', rc')" and
    r: "resolve_loop h (recording yield) (Suc fcur) es' fmax' rc' st' = Inr ex"
    by (auto simp: resolve_loop_step split: sum.splits)
  from step.IH[OF sc r] obtain tr' where
    t: "snd (exit_state ex) = snd st' @ tr'" "yielded_errors tr' = []"
      "(case ex of Exhausted _ _ _ \<Rightarrow> list_all (\<lambda>x. snd (snd x)) tr' | Cancelled _ _ _ \<Rightarrow> True)"
    by blast
  let ?tr = "(name (h ! (es ! fcur)), None, True) # tr'"
  from t st' have "snd (exit_state ex) = snd st @ ?tr \<and> yielded_errors ?tr = [] \<and>
     (case ex of Exhausted _ _ _ \<Rightarrow> list_all (\<lambda>x. snd (snd x)) ?tr | Cancelled _ _ _ \<Rightarrow> True)"
    by (cases ex) auto
  then show ?case by blast
qed

text \<open>
  C7: whatever the graph and the consumer, when the consumer answers false to an
  element (it stops before the loop has run out of free edges), no error at all has
  been or will be yielded, in particular no circular dependency.
\<close>

theorem cancelled_iteration_yields_no_error:
  assumes "ResolveIter rt dg (recording yield) (s, []) = Inr (dg', s', tr)"
    and "(el, None, False) \<in> set tr"
  shows "yielded_errors tr = [] \<and>
         \<not> list_ex (\<lambda>e. errors_Is e ErrCircularDependency) (yielded_errors tr)"
proof -
  have "yielded_errors tr = []"
    using assms(1)
  proof (cases rule: ResolveIter_cases)
    case (invalid err)
    then have "tr = [(zero_value rt, Some (ValidatingDependencyGraph err),
        fst (yield (zero_value rt) (Some (ValidatingDependencyGraph err)) s))]"
      by (auto simp: recording_def split: prod.splits)
    with assms(2) show ?thesis by simp
  next
    case (cancelled es1 fmax1 es fmax)
    from resolve_loop_recording[OF cancelled(3)] show ?thesis by simp
  next
    case (circular es1 fmax1 es fmax s1)
    from resolve_loop_recording[OF circular(3)] obtain tr' where
      t: "snd s1 = tr'" "list_all (\<lambda>x. snd (snd x)) tr'" by auto
    from circular(6) t(1) have "tr = tr' @ [(zero_value rt, Some ErrCircularDependency,
        fst (yield (zero_value rt) (Some ErrCircularDependency) (fst s1)))]"
      by (cases s1) (auto simp: recording_def split: prod.splits)
    with assms(2) t(2) show ?thesis by (auto simp: list_all_iff)
  next
    case (complete es1 fmax1 es)
    from resolve_loop_recording[OF complete(3)] show ?thesis by simp
  qed
  then show ?thesis by simp
qed

theorem cancelled_iteration_yields_no_error_witness:
  "\<exists>dg' tr. ResolveIter (enum_runtime (CHR 0x00))
       (adds NewDependencyGraph
          [(CHR ''A'', [CHR ''B'']), (CHR ''B'', []), (CHR ''C'', []), (CHR ''D'', []),
           (CHR ''E'', [CHR ''F'']), (CHR ''F'', [CHR ''E'']), (CHR ''G'', [])])
       (recording (\<lambda>el err s. (el \<noteq> CHR ''A'', s))) ((), []) = Inr (dg', (), tr) \<and>
     tr = [(CHR ''B'', None, True), (CHR ''C'', None, True), (CHR ''D'', None, True),
           (CHR ''G'', None, True), (CHR ''A'', None, False)] \<and>
     (CHR ''A'', None, False) \<in> set tr \<and> yielded_errors tr = [] \<and>
     \<not> list_ex (\<lambda>e. errors_Is e ErrCircularDependency) (yielded_errors tr)"
proof -
  let ?g = "adds NewDependencyGraph
          [(CHR ''A'', [CHR ''B'']), (CHR ''B'', []), (CHR ''C'', []), (CHR ''D'', []),
           (CHR ''E'', [CHR ''F'']), (CHR ''F'', [CHR ''E'']), (CHR ''G'', [])]"
  let ?rt = "enum_runtime (CHR 0x00)"
  let ?tr = "[(CHR ''B'', None, True), (CHR ''C'', None, True), (CHR ''D'', None, True),
           (CHR ''G'', None, True), (CHR ''A'', None, False)]"
  have "outcome (ResolveIter ?rt ?g (recording (\<lambda>el err s. (el \<noteq> CHR ''A'', s))) ((), [])) =
      Inr ((), ?tr)"
    by code_simp
  then obtain dg' where h: "ResolveIter ?rt ?g (recording (\<lambda>el err s. (el \<noteq> CHR ''A'', s))) ((), []) =
      Inr (dg', (), ?tr)"
    by (blast dest: outcome_Inr)
  have m: "(CHR ''A'', None, False) \<in> set ?tr" by simp
  from cancelled_iteration_yields_no_error[OF h m] h m show ?thesis by blast
qed

section \<open>Validation\<close>

lemma validate_deps_None:
  "validate_deps m ds = None \<longleftrightarrow> set ds \<subseteq> dom m"
  by (induction ds) (auto split: option.splits)

lemma validate_deps_Some:
  "validate_deps m ds = Some e \<Longrightarrow>
   \<exists>d \<in> set ds. m d = None \<and> e = LookingUpDependency d ErrUnknownDependency"
  by (induction ds) (auto split: option.splits)

lemma validate_edges_None:
  "validate_edges rt dg ks = None \<longleftrightarrow>
   (\<forall>k \<in> set ks. \<forall>p. edgeMap dg k = Some p \<longrightarrow>
      set (range_order rt (deps (heap dg ! p))) \<subseteq> dom (edgeMap dg))"
proof (induction ks)
  case Nil
  then show ?case by simp
next
  case (Cons k ks)
  show ?case
  proof (cases "edgeMap dg k")
    case None
    with Cons show ?thesis by simp
  next
    case (Some p)
    show ?thesis
    proof (cases "validate_deps (edgeMap dg) (range_order rt (deps (heap dg ! p)))")
      case None
      then have "set (range_order rt (deps (heap dg ! p))) \<subseteq> dom (edgeMap dg)"
        by (simp add: validate_deps_None)
      with None Some Cons show ?thesis by simp
    next
      case (Some e)
      then have "\<not> set (range_order rt (deps (heap dg ! p))) \<subseteq> dom (edgeMap dg)"
        using validate_deps_None[of "edgeMap dg" "range_order rt (deps (heap dg ! p))"] by simp
      with Some \<open>edgeMap dg k = Some p\<close> show ?thesis by auto
    qed
  qed
qed

lemma validate_edges_Some:
  "validate_edges rt dg ks = Some e \<Longrightarrow>
   \<exists>k \<in> set ks. \<exists>p d. edgeMap dg k = Some p \<and>
      d \<in> set (range_order rt (deps (heap dg ! p))) \<and> edgeMap dg d = None \<and>
      e = LookingUpDependency d ErrUnknownDependency"
proof (induction ks)
  case Nil
  then show ?case by simp
next
  case (Cons k ks)
  show ?case
  proof (cases "edgeMap dg k")
    case None
    with Cons show ?thesis by auto
  next
    case (Some p)
    show ?thesis
    proof (cases "validate_deps (edgeMap dg) (range_order rt (deps (heap dg ! p)))")
      case None
      with Some Cons show ?thesis by auto
    next
      case (Some e')
      with \<open>edgeMap dg k = Some p\<close> Cons.prems have "e' = e" by simp
      with Some validate_deps_Some[OF Some] \<open>edgeMap dg k = Some p\<close> show ?thesis by auto
    qed
  qed
qed

lemma validate_None:
  assumes "range_ok rt dg"
  shows "validate rt dg = None \<longleftrightarrow> unknown_deps dg = {}"
proof -
  from assms have 1: "set (range_order rt (dom (edgeMap dg))) = dom (edgeMap dg)"
    and 2: "\<And>k p. edgeMap dg k = Some p \<Longrightarrow>
       set (range_order rt (deps (heap dg ! p))) = deps (heap dg ! p)"
    unfolding range_ok_def by blast+
  have "validate rt dg = None \<longleftrightarrow>
    (\<forall>k \<in> dom (edgeMap dg). \<forall>p. edgeMap dg k = Some p \<longrightarrow>
       deps (heap dg ! p) \<subseteq> dom (edgeMap dg))"
    unfolding validate_def validate_edges_None 1 using 2 by auto
  also have "\<dots> \<longleftrightarrow> unknown_deps dg = {}"
    unfolding unknown_deps_def by (simp add: subset_iff dom_def) blast
  finally show ?thesis .
qed

lemma validate_Some:
  assumes "range_ok rt dg" and "validate rt dg = Some e"
  shows "\<exists>d \<in> unknown_deps dg. e = LookingUpDependency d ErrUnknownDependency"
proof -
  from validate_edges_Some[OF assms(2)[unfolded validate_def]] obtain k p d where
    "edgeMap dg k = Some p" "d \<in> set (range_order rt (deps (heap dg ! p)))"
    "edgeMap dg d = None" "e = LookingUpDependency d ErrUnknownDependency"
    by blast
  with assms(1) show ?thesis unfolding range_ok_def unknown_deps_def by blast
qed

text \<open>
  C4: when some edge depends on a name that was never added, \<^verbatim>\<open>Resolve\<close> and
  \<^verbatim>\<open>ResolveIter\<close> fail with an error that wraps \<open>ErrUnknownDependency\<close> and names such
  a dependency; the iterator makes one call of \<^verbatim>\<open>yield\<close>, the error pair, and leaves
  the graph as it was.
\<close>

theorem unknown_dependency_detected:
  assumes "range_ok rt dg" and "unknown_deps dg \<noteq> {}"
  shows "\<exists>d \<in> unknown_deps dg.
           errors_Is (ValidatingDependencyGraph (LookingUpDependency d ErrUnknownDependency))
             ErrUnknownDependency \<and>
           Resolve rt dg =
             Inr (dg, None, Some (ValidatingDependencyGraph (LookingUpDependency d ErrUnknownDependency))) \<and>
           (\<forall>(yield :: ('a, 's) yield) s.
              ResolveIter rt dg (recording yield) (s, []) =
                Inr (dg,
                  snd (yield (zero_value rt)
                    (Some (ValidatingDependencyGraph (LookingUpDependency d ErrUnknownDependency))) s),
                  [(zero_value rt,
                    Some (ValidatingDependencyGraph (LookingUpDependency d ErrUnknownDependency)),
                    fst (yield (zero_value rt)
                      (Some (ValidatingDependencyGraph (LookingUpDependency d ErrUnknownDependency))) s))]))"
proof -
  from assms validate_None[OF assms(1)] obtain e where v: "validate rt dg = Some e"
    by (cases "validate rt dg") auto
  from validate_Some[OF assms(1) v] obtain d where
    d: "d \<in> unknown_deps dg" "e = LookingUpDependency d ErrUnknownDependency" by blast
  let ?err = "ValidatingDependencyGraph (LookingUpDependency d ErrUnknownDependency)"
  have 1: "errors_Is ?err ErrUnknownDependency" by simp
  have 2: "Resolve rt dg = Inr (dg, None, Some ?err)"
    using v d(2) by (simp add: Resolve_def ResolveIter_def Resolve_body_def)
  have 3: "ResolveIter rt dg (recording yield) (s, []) =
      Inr (dg, snd (yield (zero_value rt) (Some ?err) s),
        [(zero_value rt, Some ?err, fst (yield (zero_value rt) (Some ?err) s))])"
    for yield :: "('a, 's) yield" and s
    using v d(2) by (simp add: ResolveIter_def recording_def split: prod.splits)
  from d(1) 1 2 3 show ?thesis by blast
qed

theorem unknown_dependency_detected_witness:
  "range_ok (enum_runtime (CHR 0x00))
     (adds NewDependencyGraph [(CHR ''A'', [CHR ''X'']), (CHR ''B'', []), (CHR ''C'', [])]) \<and>
   unknown_deps
     (adds NewDependencyGraph [(CHR ''A'', [CHR ''X'']), (CHR ''B'', []), (CHR ''C'', [])]) \<noteq> {} \<and>
   (\<exists>d. d \<in> unknown_deps
        (adds NewDependencyGraph [(CHR ''A'', [CHR ''X'']), (CHR ''B'', []), (CHR ''C'', [])]) \<and>
      Resolve (enum_runtime (CHR 0x00))
        (adds NewDependencyGraph [(CHR ''A'', [CHR ''X'']), (CHR ''B'', []), (CHR ''C'', [])]) =
      Inr (adds NewDependencyGraph [(CHR ''A'', [CHR ''X'']), (CHR ''B'', []), (CHR ''C'', [])],
           None, Some (ValidatingDependencyGraph (LookingUpDependency d ErrUnknownDependency))) \<and>
      ResolveIter (enum_runtime (CHR 0x00))
        (adds NewDependencyGraph [(CHR ''A'', [CHR ''X'']), (CHR ''B'', []), (CHR ''C'', [])])
        (recording (\<lambda>el err s. (True, s))) ((), []) =
      Inr (adds NewDependencyGraph [(CHR ''A'', [CHR ''X'']), (CHR ''B'', []), (CHR ''C'', [])],
           (), [(CHR 0x00,
                 Some (ValidatingDependencyGraph (LookingUpDependency d ErrUnknownDependency)),
                 True)]))"
proof -
  let ?g = "adds NewDependencyGraph [(CHR ''A'', [CHR ''X'']), (CHR ''B'', []), (CHR ''C'', [])]"
  let ?rt = "enum_runtime (CHR 0x00)"
  have r: "range_ok ?rt ?g" by (rule range_ok_enum_runtime)
  have "CHR ''X'' \<in> unknown_deps ?g"
    unfolding unknown_deps_def
    by (simp add: adds_def Add_def NewDependencyGraph_def)
  then have u: "unknown_deps ?g \<noteq> {}" by blast
  from unknown_dependency_detected[OF r u, where 's = unit] obtain d where
    "d \<in> unknown_deps ?g"
    "Resolve ?rt ?g =
       Inr (?g, None, Some (ValidatingDependencyGraph (LookingUpDependency d ErrUnknownDependency)))"
    "ResolveIter ?rt ?g (recording (\<lambda>el err s. (True, s))) ((), []) =
       Inr (?g, snd (True, ()),
         [(zero_value ?rt, Some (ValidatingDependencyGraph (LookingUpDependency d ErrUnknownDependency)),
           fst (True, ()))])"
    by blast
  with r u show ?thesis by (simp add: enum_runtime_def)
qed

section \<open>The ordering loops under the invariant of the graph\<close>

text \<open>The names of a sequence of edges.\<close>

definition names :: "'a depEdge list \<Rightarrow> addr list \<Rightarrow> 'a list" where
  "names h es = map (\<lambda>p. name (h ! p)) es"

text \<open>
  The reference count of the edge at \<open>p\<close> is the number of its dependencies that are
  not among the names \<open>Y\<close> (the names yielded so far).
\<close>

definition counted :: "'a depEdge list \<Rightarrow> 'a set \<Rightarrow> ('a \<Rightarrow> int) \<Rightarrow> addr \<Rightarrow> bool" where
  "counted h Y rc p \<longleftrightarrow> rc (name (h ! p)) = int (card (deps (h ! p) - Y))"

text \<open>Every edge of the sequence has all its dependencies among the edges before it.\<close>

definition topo :: "'a depEdge list \<Rightarrow> addr list \<Rightarrow> bool" where
  "topo h xs \<longleftrightarrow> (\<forall>j < length xs. deps (h ! (xs ! j)) \<subseteq> set (names h (take j xs)))"

text \<open>
  The state of the inner loop at index \<open>i\<close>: the edges before \<open>i\<close> are counted against
  \<open>Y'\<close> (the names yielded, with the one just yielded), the edges from \<open>i\<close> on against
  \<open>Y\<close>; the edges before \<open>fmax\<close> are those whose count is 0.
\<close>

definition scan_inv ::
  "'a depEdge list \<Rightarrow> 'a set \<Rightarrow> 'a set \<Rightarrow> nat \<Rightarrow> addr list \<Rightarrow> nat \<Rightarrow> ('a \<Rightarrow> int) \<Rightarrow> bool" where
  "scan_inv h Y Y' i es fmax rc \<longleftrightarrow>
     distinct (names h es) \<and> (\<forall>p \<in> set es. finite (deps (h ! p))) \<and>
     fmax \<le> length es \<and> i \<le> length es \<and>
     (\<forall>p \<in> set (take i es). counted h Y' rc p) \<and>
     (\<forall>p \<in> set (drop i es). counted h Y rc p) \<and>
     (\<forall>p \<in> set es. p \<in> set (take fmax es) \<longleftrightarrow> rc (name (h ! p)) = 0)"

definition scan_post ::
  "'a depEdge list \<Rightarrow> 'a set \<Rightarrow> addr list \<Rightarrow> nat \<Rightarrow> addr list \<Rightarrow> nat \<Rightarrow> ('a \<Rightarrow> int) \<Rightarrow> bool" where
  "scan_post h Y' es fmax es' fmax' rc' \<longleftrightarrow>
     mset es' = mset es \<and> fmax \<le> fmax' \<and> fmax' \<le> length es' \<and>
     take fmax es' = take fmax es \<and>
     (\<forall>p \<in> set es'. counted h Y' rc' p) \<and>
     (\<forall>p \<in> set es'. p \<in> set (take fmax' es') \<longleftrightarrow> rc' (name (h ! p)) = 0)"

subsection \<open>Swapping two positions\<close>

lemma swap_take_below:
  "k \<le> a \<Longrightarrow> k \<le> b \<Longrightarrow> take k (xs[a := u, b := v]) = take k xs"
  by simp

lemma swap_drop_above:
  "a \<le> b \<Longrightarrow> drop (Suc b) (xs[a := u, b := v]) = drop (Suc b) xs"
  by simp

lemma swap_take_Suc:
  assumes "a \<le> b" "b < length xs"
  shows "take (Suc a) (xs[a := xs ! b, b := xs ! a]) = take a xs @ [xs ! b]"
proof -
  let ?ys = "xs[a := xs ! b, b := xs ! a]"
  from assms have "a < length ?ys" by simp
  then have "take (Suc a) ?ys = take a ?ys @ [?ys ! a]"
    by (rule take_Suc_conv_app_nth)
  moreover have "take a ?ys = take a xs" using assms by simp
  moreover have "?ys ! a = xs ! b" using assms by (cases "a = b") simp_all
  ultimately show ?thesis by simp
qed

lemma swap_set_take_Suc:
  assumes "a \<le> b" "b < length xs"
  shows "set (take (Suc b) (xs[a := xs ! b, b := xs ! a])) = set (take (Suc b) xs)"
proof -
  let ?t = "take (Suc b) xs"
  from assms have l: "a < length ?t" "b < length ?t" by simp_all
  from assms have n: "?t ! a = xs ! a" "?t ! b = xs ! b" by simp_all
  have e: "take (Suc b) (xs[a := xs ! b, b := xs ! a]) = ?t[a := ?t ! b, b := ?t ! a]"
    unfolding n by (simp only: take_update_swap)
  have "mset (?t[a := ?t ! b, b := ?t ! a]) = mset ?t"
    by (rule mset_swap[OF l(2) l(1)])
  with e have "mset (take (Suc b) (xs[a := xs ! b, b := xs ! a])) = mset ?t" by simp
  then show ?thesis by (rule mset_eq_setD)
qed

lemma names_distinct_mset:
  assumes m: "mset es' = mset es" and d: "distinct (names h es)"
  shows "distinct (names h es')"
proof -
  from m have "mset (names h es') = mset (names h es)"
    by (simp add: names_def)
  from mset_eq_imp_distinct_iff[OF this] d show ?thesis by simp
qed

lemma names_inj:
  "distinct (names h es) \<Longrightarrow> p \<in> set es \<Longrightarrow> q \<in> set es \<Longrightarrow>
   name (h ! p) = name (h ! q) \<Longrightarrow> p = q"
  unfolding names_def by (auto simp: distinct_map dest: inj_onD)

lemma names_distinct_edges: "distinct (names h es) \<Longrightarrow> distinct es"
  unfolding names_def by (simp add: distinct_map)

subsection \<open>Counting\<close>

lemma counted_skip:
  assumes "t \<notin> deps (h ! p)" "counted h Y rc p"
  shows "counted h (insert t Y) rc p"
proof -
  from assms(1) have "deps (h ! p) - insert t Y = deps (h ! p) - Y" by blast
  with assms(2) show ?thesis unfolding counted_def by (simp only:)
qed

lemma card_diff_insert_new:
  assumes "finite A" "t \<in> A" "t \<notin> Y"
  shows "card (A - Y) = Suc (card (A - insert t Y))"
proof -
  from assms have e: "A - Y = insert t (A - insert t Y)" by blast
  have n: "t \<notin> A - insert t Y" by blast
  from assms have f: "finite (A - insert t Y)" by (rule_tac finite_Diff)
  from card_insert_disjoint[OF f n] show ?thesis by (simp only: e[symmetric])
qed

lemma counted_dec:
  assumes "finite (deps (h ! p))" "t \<in> deps (h ! p)" "t \<notin> Y" "counted h Y rc p"
  shows "counted h (insert t Y) (rc(name (h ! p) := rc (name (h ! p)) - 1)) p"
    and "rc (name (h ! p)) = 1 + int (card (deps (h ! p) - insert t Y))"
proof -
  define a where "a = card (deps (h ! p) - Y)"
  define b where "b = card (deps (h ! p) - insert t Y)"
  from card_diff_insert_new[OF assms(1,2,3)] have ab: "a = Suc b"
    unfolding a_def b_def .
  from assms(4) have r: "rc (name (h ! p)) = int a"
    unfolding counted_def a_def .
  from r ab show "rc (name (h ! p)) = 1 + int (card (deps (h ! p) - insert t Y))"
    unfolding b_def[symmetric] by simp
  have "(rc(name (h ! p) := rc (name (h ! p)) - 1)) (name (h ! p)) = int b"
    using r ab by simp
  then show "counted h (insert t Y) (rc(name (h ! p) := rc (name (h ! p)) - 1)) p"
    unfolding counted_def b_def .
qed

lemma counted_other:
  assumes "name (h ! q) \<noteq> name (h ! p)"
  shows "counted h Y (rc(name (h ! q) := v)) p \<longleftrightarrow> counted h Y rc p"
proof -
  from assms have "(rc(name (h ! q) := v)) (name (h ! p)) = rc (name (h ! p))"
    by (simp only: fun_upd_apply) simp
  then show ?thesis unfolding counted_def by (simp only:)
qed

subsection \<open>One step of the inner loop\<close>

lemma take_Suc_set: "i < length es \<Longrightarrow> set (take (Suc i) es) = insert (es ! i) (set (take i es))"
  by (simp add: take_Suc_conv_app_nth)

lemma drop_set_Suc: "i < length es \<Longrightarrow> set (drop i es) = insert (es ! i) (set (drop (Suc i) es))"
  by (metis Cons_nth_drop_Suc list.simps(15))

lemma distinct_nth_notin_take: "distinct es \<Longrightarrow> i < length es \<Longrightarrow> es ! i \<notin> set (take i es)"
  by (auto simp: in_set_conv_nth distinct_conv_nth)

lemma distinct_nth_notin_drop: "distinct es \<Longrightarrow> i < length es \<Longrightarrow> es ! i \<notin> set (drop (Suc i) es)"
  by (metis Cons_nth_drop_Suc distinct.simps(2) distinct_drop)


lemma scan_inv_facts:
  assumes inv: "scan_inv h Y Y' i es fmax rc" and i: "i < length es"
  shows "es ! i \<in> set es"
    and "counted h Y rc (es ! i)"
    and "finite (deps (h ! (es ! i)))"
    and "\<And>p. p \<in> set es \<Longrightarrow> p \<noteq> es ! i \<Longrightarrow> name (h ! p) \<noteq> name (h ! (es ! i))"
    and "\<And>p. p \<in> set (take i es) \<Longrightarrow> p \<noteq> es ! i \<and> p \<in> set es"
    and "\<And>p. p \<in> set (drop (Suc i) es) \<Longrightarrow> p \<noteq> es ! i \<and> p \<in> set es \<and> p \<in> set (drop i es)"
proof -
  from inv have d: "distinct (names h es)" unfolding scan_inv_def by blast
  then have de: "distinct es" by (rule names_distinct_edges)
  from i show e: "es ! i \<in> set es" by simp
  from i have "es ! i \<in> set (drop i es)" by (simp add: drop_set_Suc)
  with inv show "counted h Y rc (es ! i)" unfolding scan_inv_def by blast
  from inv e show "finite (deps (h ! (es ! i)))" unfolding scan_inv_def by blast
  show "name (h ! p) \<noteq> name (h ! (es ! i))" if "p \<in> set es" "p \<noteq> es ! i" for p
    using names_inj[OF d that(1) e] that(2) by blast
  show "p \<noteq> es ! i \<and> p \<in> set es" if "p \<in> set (take i es)" for p
    using that distinct_nth_notin_take[OF de i] by (auto dest: in_set_takeD)
  show "p \<noteq> es ! i \<and> p \<in> set es \<and> p \<in> set (drop i es)"
    if "p \<in> set (drop (Suc i) es)" for p
    using that distinct_nth_notin_drop[OF de i] i
    by (auto dest: in_set_dropD simp: drop_set_Suc[of i])
qed

lemma scan_inv_skip:
  assumes inv: "scan_inv h Y Y' i es fmax rc" and i: "i < length es"
    and t: "t \<notin> deps (h ! (es ! i))" and Y': "Y' = insert t Y"
  shows "scan_inv h Y Y' (Suc i) es fmax rc"
proof -
  note f = scan_inv_facts[OF inv i]
  from f(2) t have c: "counted h Y' rc (es ! i)" unfolding Y' by (rule counted_skip[rotated])
  have 1: "\<forall>p \<in> set (take (Suc i) es). counted h Y' rc p"
    using inv c unfolding scan_inv_def take_Suc_set[OF i] by blast
  have 2: "\<forall>p \<in> set (drop (Suc i) es). counted h Y rc p"
    using inv f(6) unfolding scan_inv_def by blast
  from i have 3: "Suc i \<le> length es" by simp
  from inv 1 2 3 show ?thesis unfolding scan_inv_def by blast
qed

lemma scan_inv_dec:
  assumes inv: "scan_inv h Y Y' i es fmax rc" and i: "i < length es"
    and t: "t \<in> deps (h ! (es ! i))" and Y': "Y' = insert t Y" and new: "t \<notin> Y"
    and rc: "rc (name (h ! (es ! i))) \<noteq> 1"
  shows "scan_inv h Y Y' (Suc i) es fmax
           (rc(name (h ! (es ! i)) := rc (name (h ! (es ! i))) - 1))"
proof -
  note f = scan_inv_facts[OF inv i]
  let ?n = "name (h ! (es ! i))"
  let ?rc = "rc(?n := rc ?n - 1)"
  note cd = counted_dec[OF f(3) t new f(2)]
  from cd(1) have c: "counted h Y' ?rc (es ! i)" unfolding Y' .
  from cd(2) rc have pos: "rc ?n \<noteq> 0" "?rc ?n \<noteq> 0" by simp_all
  have other: "?rc (name (h ! p)) = rc (name (h ! p))" "counted h Z ?rc p \<longleftrightarrow> counted h Z rc p"
    if "p \<in> set es" "p \<noteq> es ! i" for p Z
    using f(4)[OF that] by (simp_all add: counted_def)
  have 1: "\<forall>p \<in> set (take (Suc i) es). counted h Y' ?rc p"
  proof
    fix p assume p: "p \<in> set (take (Suc i) es)"
    show "counted h Y' ?rc p"
    proof (cases "p = es ! i")
      case True
      with c show ?thesis by simp
    next
      case False
      with p have pt: "p \<in> set (take i es)" unfolding take_Suc_set[OF i] by blast
      with inv have "counted h Y' rc p" unfolding scan_inv_def by blast
      with other(2)[OF _ False] f(5)[OF pt] show ?thesis by blast
    qed
  qed
  have 2: "\<forall>p \<in> set (drop (Suc i) es). counted h Y ?rc p"
  proof
    fix p assume p: "p \<in> set (drop (Suc i) es)"
    from f(6)[OF p] inv have "counted h Y rc p" unfolding scan_inv_def by blast
    with other(2) f(6)[OF p] show "counted h Y ?rc p" by blast
  qed
  have 3: "\<forall>p \<in> set es. p \<in> set (take fmax es) \<longleftrightarrow> ?rc (name (h ! p)) = 0"
  proof
    fix p assume p: "p \<in> set es"
    show "p \<in> set (take fmax es) \<longleftrightarrow> ?rc (name (h ! p)) = 0"
    proof (cases "p = es ! i")
      case True
      from inv p have "p \<in> set (take fmax es) \<longleftrightarrow> rc (name (h ! p)) = 0"
        unfolding scan_inv_def by blast
      with True pos show ?thesis by simp
    next
      case False
      from inv p have "p \<in> set (take fmax es) \<longleftrightarrow> rc (name (h ! p)) = 0"
        unfolding scan_inv_def by blast
      with other(1)[OF p False] show ?thesis by simp
    qed
  qed
  from i have 4: "Suc i \<le> length es" by simp
  from inv 1 2 3 4 show ?thesis unfolding scan_inv_def by blast
qed


lemma scan_inv_swap:
  assumes inv: "scan_inv h Y Y' i es fmax rc" and i: "i < length es"
    and t: "t \<in> deps (h ! (es ! i))" and Y': "Y' = insert t Y" and new: "t \<notin> Y"
    and rc: "rc (name (h ! (es ! i))) = 1"
  shows "fmax \<le> i"
    and "scan_inv h Y Y' (Suc i) (es[fmax := es ! i, i := es ! fmax]) (Suc fmax)
           (rc(name (h ! (es ! i)) := 0))"
proof -
  note f = scan_inv_facts[OF inv i]
  let ?e = "es ! i"
  let ?n = "name (h ! ?e)"
  let ?rc = "rc(?n := 0)"
  let ?es = "es[fmax := es ! i, i := es ! fmax]"
  from inv have fl: "fmax \<le> length es" unfolding scan_inv_def by blast
  from inv f(1) have "?e \<in> set (take fmax es) \<longleftrightarrow> rc ?n = 0"
    unfolding scan_inv_def by blast
  with rc have notin: "?e \<notin> set (take fmax es)" by simp
  show le: "fmax \<le> i"
  proof (rule ccontr)
    assume "\<not> fmax \<le> i"
    then have "i < fmax" by simp
    with i have "?e \<in> set (take fmax es)"
      by (auto simp: in_set_conv_nth intro!: exI[of _ i])
    with notin show False by blast
  qed
  from le i have fm: "fmax < length es" by simp
  have ms: "mset ?es = mset es" using fm i by (simp add: mset_swap)
  then have se: "set ?es = set es" by (rule mset_eq_setD)
  from ms inv have d: "distinct (names h ?es)"
    unfolding scan_inv_def by (blast intro: names_distinct_mset)
  have len: "length ?es = length es" by simp
  note cd = counted_dec[OF f(3) t new f(2)]
  from cd(1) rc have c: "counted h Y' ?rc ?e" unfolding Y' by simp
  have other: "?rc (name (h ! p)) = rc (name (h ! p))" "counted h Z ?rc p \<longleftrightarrow> counted h Z rc p"
    if "p \<in> set es" "p \<noteq> ?e" for p Z
    using f(4)[OF that] by (simp_all add: counted_def)
  have t1: "set (take (Suc i) ?es) = insert ?e (set (take i es))"
    using swap_set_take_Suc[OF le i] take_Suc_set[OF i] by simp
  have t2: "drop (Suc i) ?es = drop (Suc i) es"
    using le by (rule swap_drop_above)
  have t3: "set (take (Suc fmax) ?es) = insert ?e (set (take fmax es))"
    using swap_take_Suc[OF le i] by simp
  have 1: "\<forall>p \<in> set (take (Suc i) ?es). counted h Y' ?rc p"
  proof
    fix p assume p: "p \<in> set (take (Suc i) ?es)"
    show "counted h Y' ?rc p"
    proof (cases "p = ?e")
      case True
      with c show ?thesis by simp
    next
      case False
      with p have pt: "p \<in> set (take i es)" unfolding t1 by blast
      with inv have "counted h Y' rc p" unfolding scan_inv_def by blast
      with other(2)[OF _ False] f(5)[OF pt] show ?thesis by blast
    qed
  qed
  have 2: "\<forall>p \<in> set (drop (Suc i) ?es). counted h Y ?rc p"
  proof
    fix p assume "p \<in> set (drop (Suc i) ?es)"
    then have p: "p \<in> set (drop (Suc i) es)" unfolding t2 .
    from f(6)[OF p] inv have "counted h Y rc p" unfolding scan_inv_def by blast
    with other(2) f(6)[OF p] show "counted h Y ?rc p" by blast
  qed
  have 3: "\<forall>p \<in> set ?es. p \<in> set (take (Suc fmax) ?es) \<longleftrightarrow> ?rc (name (h ! p)) = 0"
  proof
    fix p assume "p \<in> set ?es"
    then have p: "p \<in> set es" unfolding se .
    show "p \<in> set (take (Suc fmax) ?es) \<longleftrightarrow> ?rc (name (h ! p)) = 0"
    proof (cases "p = ?e")
      case True
      then show ?thesis unfolding t3 by simp
    next
      case False
      from inv p have "p \<in> set (take fmax es) \<longleftrightarrow> rc (name (h ! p)) = 0"
        unfolding scan_inv_def by blast
      with other(1)[OF p False] False show ?thesis unfolding t3 by simp
    qed
  qed
  have 4: "\<forall>p \<in> set ?es. finite (deps (h ! p))"
    using inv unfolding se scan_inv_def by blast
  from fm i have 5: "Suc fmax \<le> length ?es" "Suc i \<le> length ?es" by simp_all
  from d 1 2 3 4 5
  show "scan_inv h Y Y' (Suc i) ?es (Suc fmax) ?rc"
    unfolding scan_inv_def by blast
qed


subsection \<open>The inner loop\<close>

lemma scan_correct:
  assumes Y': "Y' = insert (name (h ! this)) Y" and new: "name (h ! this) \<notin> Y"
  shows "scan_inv h Y Y' i es fmax rc \<Longrightarrow>
         \<exists>es' fmax' rc'. scan h this i es fmax rc = Inr (es', fmax', rc') \<and>
            scan_post h Y' es fmax es' fmax' rc'"
proof (induction i es fmax rc rule: scan_induct[where h = h and this = this])
  case (stop i es fmax rc)
  from stop.prems have "i \<le> length es" unfolding scan_inv_def by blast
  with stop.hyps have "take i es = es" by simp
  with stop.prems have "scan_post h Y' es fmax es fmax rc"
    unfolding scan_inv_def scan_post_def by simp
  with stop.hyps show ?case by (auto simp: scan_stop)
next
  case (skip i es fmax rc)
  from scan_inv_skip[OF skip.prems skip.hyps(1,2) Y']
  have "scan_inv h Y Y' (Suc i) es fmax rc" .
  from skip.IH[OF this] skip.hyps show ?case by (simp add: scan_skip)
next
  case (dec i es fmax rc)
  from scan_inv_dec[OF dec.prems dec.hyps(1,2) Y' new dec.hyps(3)]
  have "scan_inv h Y Y' (Suc i) es fmax
      (rc(name (h ! (es ! i)) := rc (name (h ! (es ! i))) - 1))" .
  from dec.IH[OF this] obtain es' fmax' rc' where
    r: "scan h this (Suc i) es fmax
      (rc(name (h ! (es ! i)) := rc (name (h ! (es ! i))) - 1)) = Inr (es', fmax', rc')"
    and p: "scan_post h Y' es fmax es' fmax' rc'" by blast
  from r dec.hyps have "scan h this i es fmax rc = Inr (es', fmax', rc')"
    by (simp add: scan_dec)
  with p show ?case by blast
next
  case (swap i es fmax rc)
  let ?es = "es[fmax := es ! i, i := es ! fmax]"
  let ?rc = "rc(name (h ! (es ! i)) := 0)"
  note st = scan_inv_swap[OF swap.prems swap.hyps(1,2) Y' new swap.hyps(3)]
  from st(1) swap.hyps(1) have sw: "swap fmax i es = Inr ?es"
    by (simp add: swap_def)
  from swap.IH[OF sw st(2)] obtain es' fmax' rc' where
    r: "scan h this (Suc i) ?es (Suc fmax) ?rc = Inr (es', fmax', rc')"
    and p: "scan_post h Y' ?es (Suc fmax) es' fmax' rc'" by blast
  from r sw swap.hyps have e: "scan h this i es fmax rc = Inr (es', fmax', rc')"
    by (simp add: scan_swap)
  from st(1) swap.hyps(1) have "mset ?es = mset es" by (simp add: mset_swap)
  moreover have "take fmax es' = take fmax ?es"
  proof -
    from p have "take (Suc fmax) es' = take (Suc fmax) ?es"
      unfolding scan_post_def by blast
    then have "take fmax (take (Suc fmax) es') = take fmax (take (Suc fmax) ?es)"
      by (simp only:)
    then show ?thesis by (simp add: min_def)
  qed
  moreover have "take fmax ?es = take fmax es" using st(1) by simp
  ultimately have "scan_post h Y' es fmax es' fmax' rc'"
    using p unfolding scan_post_def by auto
  with e show ?case by blast
qed

subsection \<open>The first pass\<close>

lemma promote_free_correct:
  assumes fin: "\<forall>p \<in> set es0. finite (deps (h ! p))"
  shows "fmax \<le> i \<Longrightarrow> i \<le> length es \<Longrightarrow> length es = length es0 \<Longrightarrow>
         take fmax es = filter (\<lambda>p. deps (h ! p) = {}) (take i es0) \<Longrightarrow>
         drop i es = drop i es0 \<Longrightarrow>
         \<exists>es' fmax'. promote_free h i es fmax = Inr (es', fmax') \<and> fmax' \<le> length es' \<and>
            take fmax' es' = filter (\<lambda>p. deps (h ! p) = {}) es0"
proof (induction i es fmax rule: promote_free_induct[where h = h])
  case (stop i es fmax)
  from stop.hyps stop.prems(2,3) have "take i es0 = es0" by simp
  with stop.prems stop.hyps show ?case by (simp add: promote_free_stop)
next
  case (skip i es fmax)
  from skip.hyps(1) skip.prems(3) have i0: "i < length es0" by simp
  from skip.hyps(1) i0 skip.prems(5) have nth: "es ! i = es0 ! i"
    by (metis nth_via_drop Cons_nth_drop_Suc)
  from skip.hyps(2) have "deps (h ! (es ! i)) \<noteq> {}" by auto
  with nth skip.prems(4) i0
  have t: "take fmax es = filter (\<lambda>p. deps (h ! p) = {}) (take (Suc i) es0)"
    by (simp add: take_Suc_conv_app_nth)
  from skip.prems(5) have d: "drop (Suc i) es = drop (Suc i) es0"
    by (metis drop_Suc tl_drop)
  from skip.prems(1) skip.hyps(1) have "fmax \<le> Suc i" "Suc i \<le> length es" by simp_all
  from skip.IH[OF this skip.prems(3) t d] skip.hyps show ?case
    by (simp add: promote_free_skip)
next
  case (swap i es fmax)
  let ?es = "es[fmax := es ! i, i := es ! fmax]"
  from swap.hyps(1) swap.prems(3) have i0: "i < length es0" by simp
  from swap.hyps(1) i0 swap.prems(5) have nth: "es ! i = es0 ! i"
    by (metis nth_via_drop Cons_nth_drop_Suc)
  from i0 fin have "finite (deps (h ! (es0 ! i)))" by simp
  with swap.hyps(2) nth have free: "deps (h ! (es0 ! i)) = {}" by simp
  from swap.prems(1) swap.hyps(1) have sw: "swap fmax i es = Inr ?es"
    by (simp add: swap_def)
  have "take (Suc fmax) ?es = take fmax es @ [es ! i]"
    using swap.prems(1) swap.hyps(1) by (rule swap_take_Suc)
  with swap.prems(4) nth free i0
  have t: "take (Suc fmax) ?es = filter (\<lambda>p. deps (h ! p) = {}) (take (Suc i) es0)"
    by (simp add: take_Suc_conv_app_nth)
  from swap.prems(5) have "drop (Suc i) es = drop (Suc i) es0"
    by (metis drop_Suc tl_drop)
  with swap.prems(1) have d: "drop (Suc i) ?es = drop (Suc i) es0"
    by (simp add: swap_drop_above)
  from swap.prems(1,3) swap.hyps(1)
  have "Suc fmax \<le> Suc i" "Suc i \<le> length ?es" "length ?es = length es0" by simp_all
  from swap.IH[OF sw this t d] sw swap.hyps show ?case
    by (simp add: promote_free_swap)
qed

lemma save_refcounts_other:
  "n \<notin> set (names h es) \<Longrightarrow> save_refcounts h es rc n = rc n"
  by (induction es arbitrary: rc) (auto simp: names_def)

lemma save_refcounts_counted:
  "distinct (names h es) \<Longrightarrow> p \<in> set es \<Longrightarrow>
   save_refcounts h es rc (name (h ! p)) = int (card (deps (h ! p)))"
proof (induction es arbitrary: rc)
  case Nil
  then show ?case by simp
next
  case (Cons e es)
  show ?case
  proof (cases "p = e")
    case True
    from Cons.prems(1) have "name (h ! e) \<notin> set (names h es)" by (simp add: names_def)
    from save_refcounts_other[OF this] True show ?thesis by simp
  next
    case False
    with Cons.prems have "distinct (names h es)" "p \<in> set es" by (simp_all add: names_def)
    from Cons.IH[OF this] show ?thesis by simp
  qed
qed


subsection \<open>The outer loop\<close>

text \<open>
  The state of the loop \<^verbatim>\<open>for fcur := 0; fcur < fmax; fcur++\<close> at its head: the edges
  before \<open>fcur\<close> have been yielded and are in dependency order, every count is the
  number of dependencies not yet yielded, and the edges before \<open>fmax\<close> are those
  whose count is 0.
\<close>

definition loop_inv ::
  "'a depEdge list \<Rightarrow> nat \<Rightarrow> addr list \<Rightarrow> nat \<Rightarrow> ('a \<Rightarrow> int) \<Rightarrow> bool" where
  "loop_inv h fcur es fmax rc \<longleftrightarrow>
     distinct (names h es) \<and> (\<forall>p \<in> set es. finite (deps (h ! p))) \<and>
     fcur \<le> fmax \<and> fmax \<le> length es \<and>
     (\<forall>p \<in> set es. counted h (set (names h (take fcur es))) rc p) \<and>
     (\<forall>p \<in> set es. p \<in> set (take fmax es) \<longleftrightarrow> rc (name (h ! p)) = 0) \<and>
     topo h (take fcur es)"

lemma topo_snoc:
  "topo h (xs @ [x]) \<longleftrightarrow> topo h xs \<and> deps (h ! x) \<subseteq> set (names h xs)"
proof
  assume t: "topo h (xs @ [x])"
  have "topo h xs" unfolding topo_def
  proof (intro allI impI)
    fix j assume j: "j < length xs"
    with t have "deps (h ! ((xs @ [x]) ! j)) \<subseteq> set (names h (take j (xs @ [x])))"
      unfolding topo_def by simp
    with j show "deps (h ! (xs ! j)) \<subseteq> set (names h (take j xs))"
      by (simp add: nth_append)
  qed
  moreover from t[unfolded topo_def, rule_format, of "length xs"]
  have "deps (h ! ((xs @ [x]) ! length xs)) \<subseteq>
      set (names h (take (length xs) (xs @ [x])))"
    by simp
  ultimately show "topo h xs \<and> deps (h ! x) \<subseteq> set (names h xs)" by simp
next
  assume a: "topo h xs \<and> deps (h ! x) \<subseteq> set (names h xs)"
  show "topo h (xs @ [x])" unfolding topo_def
  proof (intro allI impI)
    fix j assume j: "j < length (xs @ [x])"
    show "deps (h ! ((xs @ [x]) ! j)) \<subseteq> set (names h (take j (xs @ [x])))"
    proof (cases "j < length xs")
      case True
      with a show ?thesis unfolding topo_def by (simp add: nth_append)
    next
      case False
      with j have "j = length xs" by simp
      with a show ?thesis by simp
    qed
  qed
qed

lemma counted_zero_subset:
  assumes "counted h Y rc p" "finite (deps (h ! p))" "rc (name (h ! p)) = 0"
  shows "deps (h ! p) \<subseteq> Y"
proof -
  from assms(1,3) have "card (deps (h ! p) - Y) = 0" unfolding counted_def by simp
  with assms(2) have "deps (h ! p) - Y = {}" by simp
  then show ?thesis by blast
qed

lemma counted_mono_done:
  assumes "counted h Y rc p" "finite (deps (h ! p))" "rc (name (h ! p)) = 0"
  shows "counted h (insert t Y) rc p"
proof -
  from counted_zero_subset[OF assms] have "deps (h ! p) - insert t Y = {}" "deps (h ! p) - Y = {}"
    by blast+
  with assms(1) show ?thesis unfolding counted_def by (simp only:)
qed

lemma names_take_Suc:
  "i < length es \<Longrightarrow> names h (take (Suc i) es) = names h (take i es) @ [name (h ! (es ! i))]"
  by (simp add: names_def take_Suc_conv_app_nth)

lemma names_nth_notin_take:
  assumes "distinct (names h es)" "i < length es"
  shows "name (h ! (es ! i)) \<notin> set (names h (take i es))"
proof -
  from assms(2) have "i < length (names h es)" by (simp add: names_def)
  from distinct_nth_notin_take[OF assms(1) this] assms(2) show ?thesis
    by (simp add: names_def take_map)
qed

lemma take_take_le: "k \<le> m \<Longrightarrow> take m xs = take m ys \<Longrightarrow> take k xs = take k ys"
proof -
  assume k: "k \<le> m" and e: "take m xs = take m ys"
  from e have "take k (take m xs) = take k (take m ys)" by (simp only:)
  with k show ?thesis by (simp add: min_def)
qed

lemma loop_step:
  assumes inv: "loop_inv h fcur es fmax rc" and lt: "fcur < fmax"
  shows "\<exists>es' fmax' rc'. scan h (es ! fcur) (Suc fcur) es fmax rc = Inr (es', fmax', rc') \<and>
           loop_inv h (Suc fcur) es' fmax' rc' \<and> mset es' = mset es \<and>
           take fmax es' = take fmax es \<and> fmax \<le> fmax'"
proof -
  let ?e = "es ! fcur"
  let ?t = "name (h ! ?e)"
  let ?Y = "set (names h (take fcur es))"
  let ?Y' = "insert ?t ?Y"
  from inv have d: "distinct (names h es)" and fin: "\<forall>p \<in> set es. finite (deps (h ! p))"
    and fl: "fmax \<le> length es"
    and cnt: "\<forall>p \<in> set es. counted h ?Y rc p"
    and fr: "\<forall>p \<in> set es. p \<in> set (take fmax es) \<longleftrightarrow> rc (name (h ! p)) = 0"
    and tp: "topo h (take fcur es)"
    unfolding loop_inv_def by blast+
  from lt fl have len: "fcur < length es" by simp
  have new: "?t \<notin> ?Y" using d len by (rule names_nth_notin_take)
  have sub: "set (take (Suc fcur) es) \<subseteq> set (take fmax es)"
    using lt by (metis Suc_leI set_take_subset_set_take)
  have 1: "\<forall>p \<in> set (take (Suc fcur) es). counted h ?Y' rc p"
  proof
    fix p assume "p \<in> set (take (Suc fcur) es)"
    with sub have p: "p \<in> set (take fmax es)" by blast
    then have pe: "p \<in> set es" by (rule in_set_takeD)
    with p fr have "rc (name (h ! p)) = 0" by blast
    with cnt fin pe show "counted h ?Y' rc p" by (blast intro: counted_mono_done)
  qed
  have 2: "\<forall>p \<in> set (drop (Suc fcur) es). counted h ?Y rc p"
    using cnt by (blast dest: in_set_dropD)
  from len have "Suc fcur \<le> length es" by simp
  with d fin fl 1 2 fr have si: "scan_inv h ?Y ?Y' (Suc fcur) es fmax rc"
    unfolding scan_inv_def by blast
  from scan_correct[OF refl new si] obtain es' fmax' rc' where
    sc: "scan h ?e (Suc fcur) es fmax rc = Inr (es', fmax', rc')" and
    post: "scan_post h ?Y' es fmax es' fmax' rc'" by blast
  from post have ms: "mset es' = mset es" and ff: "fmax \<le> fmax'" and fl': "fmax' \<le> length es'"
    and tk: "take fmax es' = take fmax es"
    and cnt': "\<forall>p \<in> set es'. counted h ?Y' rc' p"
    and fr': "\<forall>p \<in> set es'. p \<in> set (take fmax' es') \<longleftrightarrow> rc' (name (h ! p)) = 0"
    unfolding scan_post_def by blast+
  from ms have se: "set es' = set es" by (rule mset_eq_setD)
  from ms have le: "length es' = length es" by (rule mset_eq_length)
  from lt have "Suc fcur \<le> fmax" by simp
  from take_take_le[OF this tk] have tk1: "take (Suc fcur) es' = take (Suc fcur) es" .
  have nm: "names h (take (Suc fcur) es) = names h (take fcur es) @ [?t]"
    using len by (rule names_take_Suc)
  have Y'eq: "set (names h (take (Suc fcur) es')) = ?Y'" unfolding tk1 nm by simp
  have "?e \<in> set (take fmax es)" using lt len
    by (auto simp: in_set_conv_nth intro!: exI[of _ fcur])
  with fr len have "rc ?t = 0" by simp
  moreover from len have "?e \<in> set es" by simp
  ultimately have "deps (h ! ?e) \<subseteq> ?Y"
    using cnt fin by (intro counted_zero_subset[of h ?Y rc ?e]) blast+
  with tp have "topo h (take fcur es @ [?e])" by (simp add: topo_snoc)
  with len have tp': "topo h (take (Suc fcur) es')" unfolding tk1
    by (simp add: take_Suc_conv_app_nth)
  from ms d have d': "distinct (names h es')" by (rule names_distinct_mset)
  from fin se have fin': "\<forall>p \<in> set es'. finite (deps (h ! p))" by simp
  from lt ff have "Suc fcur \<le> fmax'" by simp
  with d' fin' fl' cnt' fr' tp' Y'eq have "loop_inv h (Suc fcur) es' fmax' rc'"
    unfolding loop_inv_def by simp
  with sc ms tk ff show ?thesis by blast
qed

lemma resolve_loop_correct:
  "loop_inv h fcur es fmax rc \<Longrightarrow>
   \<exists>ex. resolve_loop h yield fcur es fmax rc s = Inr ex \<and>
     mset (exit_edges ex) = mset es \<and> take fmax (exit_edges ex) = take fmax es \<and>
     (\<forall>es' fmax' s'. ex = Exhausted es' fmax' s' \<longrightarrow> (\<exists>rc'. loop_inv h fmax' es' fmax' rc'))"
proof (induction fcur es fmax rc s rule: resolve_loop_induct[where h = h and yield = yield])
  case (stop fcur es fmax rc s)
  from stop.prems have "fcur \<le> fmax" unfolding loop_inv_def by blast
  with stop.hyps have "fcur = fmax" by simp
  with stop.prems have "loop_inv h fmax es fmax rc" by simp
  with stop.hyps show ?case by (auto simp: resolve_loop_stop)
next
  case (panic fcur es fmax rc s)
  from panic.prems have "fmax \<le> length es" unfolding loop_inv_def by blast
  with panic.hyps show ?case by simp
next
  case (cancel fcur es fmax rc s s')
  then show ?case by (auto simp: resolve_loop_cancel)
next
  case (step fcur es fmax rc s s')
  from loop_step[OF step.prems step.hyps(1)] obtain es1 fmax1 rc1 where
    sc: "scan h (es ! fcur) (Suc fcur) es fmax rc = Inr (es1, fmax1, rc1)" and
    inv: "loop_inv h (Suc fcur) es1 fmax1 rc1" and ms: "mset es1 = mset es" and
    tk: "take fmax es1 = take fmax es" and ff: "fmax \<le> fmax1" by blast
  from step.IH[OF sc inv] obtain ex where
    r: "resolve_loop h yield (Suc fcur) es1 fmax1 rc1 s' = Inr ex" and
    m: "mset (exit_edges ex) = mset es1" and
    t: "take fmax1 (exit_edges ex) = take fmax1 es1" and
    e: "\<forall>es' fmax' s'. ex = Exhausted es' fmax' s' \<longrightarrow> (\<exists>rc'. loop_inv h fmax' es' fmax' rc')"
    by blast
  from r sc step.hyps have "resolve_loop h yield fcur es fmax rc s = Inr ex"
    by (simp add: resolve_loop_step)
  moreover from take_take_le[OF ff t] tk have "take fmax (exit_edges ex) = take fmax es" by simp
  moreover from m ms have "mset (exit_edges ex) = mset es" by simp
  ultimately show ?case using e by blast
qed

subsection \<open>What the consumer of Resolve collects\<close>

lemma scan_prefix:
  "scan h this i es fmax rc = Inr (es', fmax', rc') \<Longrightarrow> k \<le> i \<Longrightarrow> k \<le> fmax \<Longrightarrow>
   take k es' = take k es \<and> fmax \<le> fmax'"
proof (induction i es fmax rc rule: scan_induct[where h = h and this = this])
  case (stop i es fmax rc)
  then show ?case by (simp add: scan_stop)
next
  case (skip i es fmax rc)
  from skip.prems(1) skip.hyps have "scan h this (Suc i) es fmax rc = Inr (es', fmax', rc')"
    by (simp add: scan_skip)
  from skip.IH[OF this] skip.prems(2,3) show ?case by simp
next
  case (dec i es fmax rc)
  from dec.prems(1) dec.hyps
  have "scan h this (Suc i) es fmax (rc(name (h ! (es ! i)) := rc (name (h ! (es ! i))) - 1)) =
        Inr (es', fmax', rc')"
    by (simp add: scan_dec)
  from dec.IH[OF this] dec.prems(2,3) show ?case by simp
next
  case (swap i es fmax rc)
  from swap.prems(1) swap.hyps obtain x where sw: "swap fmax i es = Inr x"
    and r: "scan h this (Suc i) x (Suc fmax) (rc(name (h ! (es ! i)) := 0)) = Inr (es', fmax', rc')"
    by (auto simp: scan_swap split: sum.splits)
  from swap.prems(2,3) have "k \<le> Suc i" "k \<le> Suc fmax" by simp_all
  from swap.IH[OF sw r this] have 1: "take k es' = take k x" "Suc fmax \<le> fmax'" by simp_all
  from sw have "x = es[fmax := es ! i, i := es ! fmax]" by (simp add: swap_Inr_iff)
  with swap.prems(2,3) have "take k x = take k es" by simp
  with 1 show ?case by simp
qed

lemma resolve_loop_Resolve_body:
  "resolve_loop h Resolve_body fcur es fmax rc s = Inr ex \<Longrightarrow> snd s = None \<Longrightarrow>
   fcur \<le> fmax \<Longrightarrow>
   \<exists>es' fmax'. ex = Exhausted es' fmax' (fst s @ names h (drop fcur (take fmax' es')), None) \<and>
      take fcur es' = take fcur es \<and> fmax \<le> fmax' \<and> length es' = length es"
proof (induction fcur es fmax rc s rule: resolve_loop_induct[where h = h and yield = Resolve_body])
  case (stop fcur es fmax rc s)
  from stop.hyps stop.prems(3) have "fcur = fmax" by simp
  moreover from stop.prems(1) stop.hyps have "ex = Exhausted es fmax s"
    by (simp add: resolve_loop_stop)
  moreover from stop.prems(2) have "s = (fst s, None)" by (cases s) simp
  ultimately have "ex = Exhausted es fmax (fst s @ names h (drop fcur (take fmax es)), None) \<and>
      take fcur es = take fcur es \<and> fmax \<le> fmax \<and> length es = length es"
    by (simp add: names_def)
  then show ?case by blast
next
  case (panic fcur es fmax rc s)
  then show ?case by (simp add: resolve_loop_panic)
next
  case (cancel fcur es fmax rc s s')
  then show ?case by (cases s) (simp add: Resolve_body_def)
next
  case (step fcur es fmax rc s s')
  let ?n = "name (h ! (es ! fcur))"
  from step.hyps(3) step.prems(2) have s': "s' = (fst s @ [?n], None)"
    by (cases s) (simp add: Resolve_body_def)
  then have s'2: "snd s' = None" "fst s' = fst s @ [?n]" by simp_all
  from step.prems(1) step.hyps(1,2,3) obtain es1 fmax1 rc1 where
    sc: "scan h (es ! fcur) (Suc fcur) es fmax rc = Inr (es1, fmax1, rc1)" and
    r: "resolve_loop h Resolve_body (Suc fcur) es1 fmax1 rc1 s' = Inr ex"
    by (auto simp: resolve_loop_step split: sum.splits)
  from step.hyps(1) have "Suc fcur \<le> fmax" by simp
  from scan_prefix[OF sc order_refl this] have p: "take (Suc fcur) es1 = take (Suc fcur) es"
    "fmax \<le> fmax1" by simp_all
  from scan_length[OF sc] have l1: "length es1 = length es" .
  from step.hyps(1) p(2) have "Suc fcur \<le> fmax1" by simp
  from step.IH[OF sc r s'2(1) this] obtain es' fmax' where
    ex: "ex = Exhausted es' fmax' (fst s' @ names h (drop (Suc fcur) (take fmax' es')), None)"
    and t: "take (Suc fcur) es' = take (Suc fcur) es1" and f: "fmax1 \<le> fmax'"
    and l: "length es' = length es1" by blast
  from t p(1) have t': "take (Suc fcur) es' = take (Suc fcur) es" by simp
  from step.hyps(2) l l1 have len: "fcur < length es'" by simp
  from step.hyps(1) p(2) f have lt: "fcur < fmax'" by simp
  from t' step.hyps(2) len have nth: "es' ! fcur = es ! fcur"
    by (metis lessI nth_take)
  from len lt have "fcur < length (take fmax' es')" by simp
  then have "drop fcur (take fmax' es') = (take fmax' es') ! fcur # drop (Suc fcur) (take fmax' es')"
    by (rule Cons_nth_drop_Suc[symmetric])
  with lt nth have "names h (drop fcur (take fmax' es')) =
      ?n # names h (drop (Suc fcur) (take fmax' es'))"
    by (simp add: names_def)
  with ex s'2(2) have "ex = Exhausted es' fmax' (fst s @ names h (drop fcur (take fmax' es')), None)"
    by simp
  moreover from t' have "take fcur es' = take fcur es"
    by (rule take_take_le[rotated]) simp
  moreover from p(2) f have "fmax \<le> fmax'" by simp
  moreover from l l1 have "length es' = length es" by simp
  ultimately show ?case by blast
qed

section \<open>The invariant of the graph\<close>

text \<open>
  What \<^verbatim>\<open>NewDependencyGraph\<close> establishes and \<^verbatim>\<open>Add\<close> and the resolutions keep: the
  stored sequence holds each pointer once, every pointer is allocated, and the slice
  and the map hold the same edges, each under its own name.
\<close>

definition wf_graph :: "'a DependencyGraph \<Rightarrow> bool" where
  "wf_graph dg \<longleftrightarrow>
     distinct (edges dg) \<and>
     (\<forall>p \<in> set (edges dg). p < length (heap dg) \<and> finite (deps (heap dg ! p)) \<and>
        edgeMap dg (name (heap dg ! p)) = Some p) \<and>
     (\<forall>k p. edgeMap dg k = Some p \<longrightarrow> p \<in> set (edges dg) \<and> name (heap dg ! p) = k)"

text \<open>The dependency relation of the stored edges, and a cycle in it.\<close>

definition dep_rel :: "'a DependencyGraph \<Rightarrow> ('a \<times> 'a) set" where
  "dep_rel dg = {(name (heap dg ! p), d) | p d. p \<in> set (edges dg) \<and> d \<in> deps (heap dg ! p)}"

definition cyclic :: "'a DependencyGraph \<Rightarrow> bool" where
  "cyclic dg \<longleftrightarrow> (\<exists>x. (x, x) \<in> (dep_rel dg)\<^sup>+)"

lemma wf_names_distinct:
  assumes "wf_graph dg"
  shows "distinct (names (heap dg) (edges dg))"
proof -
  have "inj_on (\<lambda>p. name (heap dg ! p)) (set (edges dg))"
  proof (rule inj_onI)
    fix p q assume "p \<in> set (edges dg)" "q \<in> set (edges dg)"
      "name (heap dg ! p) = name (heap dg ! q)"
    with assms have "Some p = Some q" unfolding wf_graph_def by metis
    then show "p = q" by simp
  qed
  with assms show ?thesis unfolding names_def wf_graph_def by (simp add: distinct_map)
qed

lemma wf_finite: "wf_graph dg \<Longrightarrow> \<forall>p \<in> set (edges dg). finite (deps (heap dg ! p))"
  unfolding wf_graph_def by blast

lemma wf_names_dom:
  assumes "wf_graph dg"
  shows "set (names (heap dg) (edges dg)) = dom (edgeMap dg)"
proof
  show "set (names (heap dg) (edges dg)) \<subseteq> dom (edgeMap dg)"
    using assms unfolding wf_graph_def names_def by auto
  show "dom (edgeMap dg) \<subseteq> set (names (heap dg) (edges dg))"
  proof
    fix k assume "k \<in> dom (edgeMap dg)"
    then obtain p where "edgeMap dg k = Some p" by blast
    with assms have "p \<in> set (edges dg)" "name (heap dg ! p) = k"
      unfolding wf_graph_def by blast+
    then show "k \<in> set (names (heap dg) (edges dg))" unfolding names_def by force
  qed
qed

lemma wf_graph_permute:
  assumes "wf_graph dg" "mset es = mset (edges dg)"
  shows "wf_graph (dg\<lparr>edges := es\<rparr>)"
proof -
  from assms(2) have "set es = set (edges dg)" by (rule mset_eq_setD)
  moreover from assms(2) have "distinct es \<longleftrightarrow> distinct (edges dg)"
    by (rule mset_eq_imp_distinct_iff)
  ultimately show ?thesis using assms(1) unfolding wf_graph_def by simp
qed

section \<open>Resolve on a well-formed graph\<close>

lemma Resolve_wf:
  assumes wf: "wf_graph dg" and v: "validate rt dg = None"
  shows "\<exists>es fmax rc' k.
           loop_inv (heap dg) fmax es fmax rc' \<and> mset es = mset (edges dg) \<and>
           take k es = filter (\<lambda>p. deps (heap dg ! p) = {}) (edges dg) \<and>
           Resolve rt dg =
             Inr (dg\<lparr>edges := es\<rparr>,
                  if fmax = length es then (Some (names (heap dg) es), None)
                  else (None, Some ErrCircularDependency))"
proof -
  let ?h = "heap dg" and ?es0 = "edges dg"
  let ?free = "\<lambda>p. deps (heap dg ! p) = {}"
  let ?rc0 = "save_refcounts ?h ?es0 (\<lambda>_. 0)"
  note d0 = wf_names_distinct[OF wf] and fin0 = wf_finite[OF wf]
  have "\<exists>es' fmax'. promote_free ?h 0 ?es0 0 = Inr (es', fmax') \<and> fmax' \<le> length es' \<and>
            take fmax' es' = filter ?free ?es0"
    by (rule promote_free_correct[OF fin0]) simp_all
  then obtain es1 fmax1 where
    pf: "promote_free ?h 0 ?es0 0 = Inr (es1, fmax1)" and f1: "fmax1 \<le> length es1" and
    t1: "take fmax1 es1 = filter ?free ?es0" by blast
  from promote_free_mset[OF pf] have m1: "mset es1 = mset ?es0" .
  then have s1: "set es1 = set ?es0" by (rule mset_eq_setD)
  from m1 d0 have d1: "distinct (names ?h es1)" by (rule names_distinct_mset)
  from fin0 s1 have fin1: "\<forall>p \<in> set es1. finite (deps (?h ! p))" by simp
  have rc0: "?rc0 (name (?h ! p)) = int (card (deps (?h ! p)))" if "p \<in> set es1" for p
    using save_refcounts_counted[OF d0] that s1 by blast
  have c1: "\<forall>p \<in> set es1. counted ?h (set (names ?h (take 0 es1))) ?rc0 p"
    using rc0 by (simp add: counted_def names_def)
  have z1: "\<forall>p \<in> set es1. p \<in> set (take fmax1 es1) \<longleftrightarrow> ?rc0 (name (?h ! p)) = 0"
  proof
    fix p assume p: "p \<in> set es1"
    with fin1 have "finite (deps (?h ! p))" by blast
    then have "?rc0 (name (?h ! p)) = 0 \<longleftrightarrow> deps (?h ! p) = {}"
      using rc0[OF p] by simp
    moreover from p s1 have "p \<in> set (take fmax1 es1) \<longleftrightarrow> deps (?h ! p) = {}"
      unfolding t1 by simp
    ultimately show "p \<in> set (take fmax1 es1) \<longleftrightarrow> ?rc0 (name (?h ! p)) = 0" by simp
  qed
  have "topo ?h (take 0 es1)" by (simp add: topo_def)
  with d1 fin1 f1 c1 z1 have inv1: "loop_inv ?h 0 es1 fmax1 ?rc0"
    unfolding loop_inv_def by simp
  from resolve_loop_correct[OF inv1, of Resolve_body "([], None)"] obtain ex where
    rl: "resolve_loop ?h Resolve_body 0 es1 fmax1 ?rc0 ([], None) = Inr ex" and
    mx: "mset (exit_edges ex) = mset es1" and
    tx: "take fmax1 (exit_edges ex) = take fmax1 es1" and
    ix: "\<forall>es' fmax' s'. ex = Exhausted es' fmax' s' \<longrightarrow> (\<exists>rc'. loop_inv ?h fmax' es' fmax' rc')"
    by blast
  from resolve_loop_Resolve_body[OF rl] obtain es fmax where
    ex: "ex = Exhausted es fmax (names ?h (take fmax es), None)" by auto
  from ix ex obtain rc' where inv: "loop_inv ?h fmax es fmax rc'" by blast
  from mx ex m1 have m: "mset es = mset ?es0" by simp
  from tx ex t1 have t: "take fmax1 es = filter ?free ?es0" by simp
  have "Resolve rt dg =
      Inr (dg\<lparr>edges := es\<rparr>,
           if fmax = length es then (Some (names ?h es), None)
           else (None, Some ErrCircularDependency))"
    using v pf rl ex
    by (simp add: Resolve_def ResolveIter_def Resolve_body_def)
  with inv m t show ?thesis by blast
qed

lemma Resolve_success:
  assumes "Resolve rt dg = Inr (dg', Some res, None)"
  shows "validate rt dg = None \<and> (\<exists>es. dg' = dg\<lparr>edges := es\<rparr> \<and> res = names (heap dg) es)"
proof -
  from assms obtain acc ret where
    it: "ResolveIter rt dg Resolve_body ([], None) = Inr (dg', (acc, ret))" and
    r: "(Some res, None) = (case ret of Some r' \<Rightarrow> r' | None \<Rightarrow> (Some acc, None))"
    by (rule Resolve_Inr)
  from it show ?thesis
  proof (cases rule: ResolveIter_cases)
    case (invalid err)
    with r show ?thesis by (simp add: Resolve_body_def)
  next
    case (cancelled es1 fmax1 es fmax)
    from resolve_loop_Resolve_body[OF cancelled(3)] show ?thesis by simp
  next
    case (circular es1 fmax1 es fmax s1)
    with r show ?thesis by (cases s1) (simp add: Resolve_body_def)
  next
    case (complete es1 fmax1 es)
    from resolve_loop_Resolve_body[OF complete(3)]
    have "(acc, ret) = (names (heap dg) es, None)" by (simp add: names_def)
    with r complete show ?thesis by auto
  qed
qed

section \<open>Add and the invariant\<close>

lemma add_deps_name: "name (add_deps dl edge) = name edge"
  by (induction dl arbitrary: edge) simp_all

lemma add_deps_deps: "deps (add_deps dl edge) = deps edge \<union> set dl"
  by (induction dl arbitrary: edge) auto

lemma add_deps_eq: "add_deps dl edge = edge\<lparr>deps := deps edge \<union> set dl\<rparr>"
  by (rule depEdge.equality) (simp_all add: add_deps_name add_deps_deps)

lemma Add_existing:
  "edgeMap dg nm = Some p \<Longrightarrow>
   Add dg nm dl = dg\<lparr>heap := (heap dg)[p := add_deps dl (heap dg ! p)]\<rparr>"
  by (simp add: Add_def)

lemma Add_new:
  "edgeMap dg nm = None \<Longrightarrow>
   Add dg nm dl =
     dg\<lparr>heap := heap dg @ [add_deps dl \<lparr>name = nm, deps = {}\<rparr>],
        edgeMap := (edgeMap dg)(nm \<mapsto> length (heap dg)),
        edges := edges dg @ [length (heap dg)]\<rparr>"
  by (simp add: Add_def Let_def)

lemma wf_NewDependencyGraph: "wf_graph NewDependencyGraph"
  by (simp add: wf_graph_def NewDependencyGraph_def)

lemma wf_Add:
  assumes wf: "wf_graph dg"
  shows "wf_graph (Add dg nm dl)"
proof (cases "edgeMap dg nm")
  case None
  let ?p = "length (heap dg)"
  from wf have lt: "\<forall>q \<in> set (edges dg). q < ?p" unfolding wf_graph_def by blast
  then have fresh: "?p \<notin> set (edges dg)" by blast
  have nth: "(heap dg @ [e]) ! q = heap dg ! q" if "q \<in> set (edges dg)" for q e
    using lt that by (simp add: nth_append)
  from wf None have nk: "\<forall>q \<in> set (edges dg). name (heap dg ! q) \<noteq> nm"
    unfolding wf_graph_def by force
  show ?thesis
    unfolding Add_new[OF None] wf_graph_def
    using wf fresh nth nk
    by (auto simp: wf_graph_def add_deps_name add_deps_deps nth_append split: if_splits)
next
  case (Some p)
  have nth: "(heap dg)[p := e] ! q = (if q = p then e else heap dg ! q)"
    if "q < length (heap dg)" for q e
    using that by (simp add: nth_list_update)
  show ?thesis
    unfolding Add_existing[OF Some] wf_graph_def
    using wf Some
    by (auto simp: wf_graph_def add_deps_name add_deps_deps nth_list_update)
qed

lemma dom_edgeMap_Add: "dom (edgeMap (Add dg nm dl)) = insert nm (dom (edgeMap dg))"
proof (cases "edgeMap dg nm")
  case None
  then show ?thesis by (simp add: Add_new)
next
  case (Some p)
  then show ?thesis by (auto simp: Add_existing)
qed

lemma adds_Nil: "adds dg [] = dg"
  by (simp add: adds_def)

lemma adds_Cons: "adds dg ((nm, dl) # calls) = adds (Add dg nm dl) calls"
  by (simp add: adds_def)

lemma wf_adds: "wf_graph dg \<Longrightarrow> wf_graph (adds dg calls)"
proof (induction calls arbitrary: dg)
  case Nil
  then show ?case by (simp add: adds_Nil)
next
  case (Cons c calls)
  obtain nm dl where c: "c = (nm, dl)" by (cases c)
  from Cons.IH[OF wf_Add[OF Cons.prems]] show ?case unfolding c adds_Cons .
qed

lemma dom_edgeMap_adds: "dom (edgeMap (adds dg calls)) = dom (edgeMap dg) \<union> fst ` set calls"
proof (induction calls arbitrary: dg)
  case Nil
  then show ?case by (simp add: adds_Nil)
next
  case (Cons c calls)
  obtain nm dl where c: "c = (nm, dl)" by (cases c)
  show ?case unfolding c adds_Cons Cons.IH dom_edgeMap_Add by auto
qed

section \<open>Topological validity\<close>

lemma Resolve_wf_success:
  assumes "wf_graph dg" and "Resolve rt dg = Inr (dg', Some res, None)"
  obtains es rc' k where
    "loop_inv (heap dg) (length es) es (length es) rc'" "mset es = mset (edges dg)"
    "take k es = filter (\<lambda>p. deps (heap dg ! p) = {}) (edges dg)"
    "dg' = dg\<lparr>edges := es\<rparr>" "res = names (heap dg) es"
proof -
  from Resolve_success[OF assms(2)] have v: "validate rt dg = None" by blast
  from Resolve_wf[OF assms(1) v] obtain es fmax rc' k where
    inv: "loop_inv (heap dg) fmax es fmax rc'" and m: "mset es = mset (edges dg)" and
    t: "take k es = filter (\<lambda>p. deps (heap dg ! p) = {}) (edges dg)" and
    r: "Resolve rt dg =
          Inr (dg\<lparr>edges := es\<rparr>,
               if fmax = length es then (Some (names (heap dg) es), None)
               else (None, Some ErrCircularDependency))"
    by blast
  from r assms(2) have f: "fmax = length es"
    by (cases "fmax = length es") simp_all
  with r assms(2) have "dg' = dg\<lparr>edges := es\<rparr>" "res = names (heap dg) es" by simp_all
  with inv m t f that show thesis by blast
qed



text \<open>
  C1: when \<^verbatim>\<open>Resolve\<close> succeeds on a well-formed graph, every dependency of every
  stored edge occurs in the result strictly before the name of that edge.
\<close>

theorem resolve_dependencies_first:
  assumes "wf_graph dg" and "Resolve rt dg = Inr (dg', Some res, None)"
  shows "\<forall>p \<in> set (edges dg). \<forall>d \<in> deps (heap dg ! p).
           \<exists>i j. i < j \<and> j < length res \<and> res ! i = d \<and> res ! j = name (heap dg ! p)"
proof (intro ballI)
  fix p d assume p: "p \<in> set (edges dg)" and d: "d \<in> deps (heap dg ! p)"
  let ?h = "heap dg"
  from assms obtain es rc' where
    inv: "loop_inv ?h (length es) es (length es) rc'" and m: "mset es = mset (edges dg)" and
    res: "res = names ?h es"
    by (rule Resolve_wf_success)
  from inv have tp: "topo ?h es" unfolding loop_inv_def by simp
  from m have "set es = set (edges dg)" by (rule mset_eq_setD)
  with p have "p \<in> set es" by simp
  then obtain j where j: "j < length es" "es ! j = p" unfolding in_set_conv_nth by blast
  with tp d have "d \<in> set (names ?h (take j es))" unfolding topo_def by blast
  then obtain i where i: "i < length (names ?h (take j es))" "names ?h (take j es) ! i = d"
    unfolding in_set_conv_nth by blast
  from i(1) j(1) have ij: "i < j" by (simp add: names_def)
  with i(2) j(1) have "names ?h es ! i = d" by (simp add: names_def)
  moreover from j have "names ?h es ! j = name (?h ! p)" by (simp add: names_def)
  moreover from j(1) have "j < length (names ?h es)" by (simp add: names_def)
  ultimately show "\<exists>i j. i < j \<and> j < length res \<and> res ! i = d \<and> res ! j = name (?h ! p)"
    using ij unfolding res by blast
qed

theorem resolve_dependencies_first_witness:
  "wf_graph (adds NewDependencyGraph
      [(CHR ''A'', []), (CHR ''B'', [CHR ''A'']), (CHR ''C'', []),
       (CHR ''D'', [CHR ''B'', CHR ''A'']), (CHR ''E'', [])]) \<and>
   (\<exists>dg'. Resolve (enum_runtime (CHR 0x00))
      (adds NewDependencyGraph
        [(CHR ''A'', []), (CHR ''B'', [CHR ''A'']), (CHR ''C'', []),
         (CHR ''D'', [CHR ''B'', CHR ''A'']), (CHR ''E'', [])]) =
      Inr (dg', Some [CHR ''A'', CHR ''C'', CHR ''E'', CHR ''B'', CHR ''D''], None)) \<and>
   (\<exists>i j. i < j \<and> j < length [CHR ''A'', CHR ''C'', CHR ''E'', CHR ''B'', CHR ''D''] \<and>
      [CHR ''A'', CHR ''C'', CHR ''E'', CHR ''B'', CHR ''D''] ! i = CHR ''B'' \<and>
      [CHR ''A'', CHR ''C'', CHR ''E'', CHR ''B'', CHR ''D''] ! j = CHR ''D'')"
proof -
  let ?g = "adds NewDependencyGraph
      [(CHR ''A'', []), (CHR ''B'', [CHR ''A'']), (CHR ''C'', []),
       (CHR ''D'', [CHR ''B'', CHR ''A'']), (CHR ''E'', [])]"
  let ?rt = "enum_runtime (CHR 0x00)"
  let ?res = "[CHR ''A'', CHR ''C'', CHR ''E'', CHR ''B'', CHR ''D'']"
  have wf: "wf_graph ?g" by (rule wf_adds[OF wf_NewDependencyGraph])
  have "outcome (Resolve ?rt ?g) = Inr (Some ?res, None)" by code_simp
  then obtain dg' where h: "Resolve ?rt ?g = Inr (dg', Some ?res, None)"
    by (blast dest: outcome_Inr)
  have e: "3 \<in> set (edges ?g)" by code_simp
  have d: "CHR ''B'' \<in> deps (heap ?g ! 3)" by code_simp
  have n: "name (heap ?g ! 3) = CHR ''D''" by code_simp
  from resolve_dependencies_first[OF wf h] e d
  have "\<exists>i j. i < j \<and> j < length ?res \<and> ?res ! i = CHR ''B'' \<and> ?res ! j = name (heap ?g ! 3)"
    by blast
  with n wf h show ?thesis by auto
qed

section \<open>Totality\<close>

text \<open>
  C2: when \<^verbatim>\<open>Resolve\<close> succeeds, the result holds every name ever passed to \<^verbatim>\<open>Add\<close>
  exactly once: the names a well-formed graph \<open>dg0\<close> already knows and the names of
  the calls made since, so that its length is the number of these names. For
  \<open>dg0 = NewDependencyGraph\<close> these are the names of the calls.
\<close>

theorem resolve_returns_every_element_once:
  assumes "wf_graph dg0" and "Resolve rt (adds dg0 calls) = Inr (dg', Some res, None)"
  shows "distinct res \<and> set res = dom (edgeMap dg0) \<union> fst ` set calls \<and>
         length res = card (dom (edgeMap dg0) \<union> fst ` set calls)"
proof -
  let ?dg = "adds dg0 calls"
  let ?h = "heap ?dg"
  from assms(1) have wf: "wf_graph ?dg" by (rule wf_adds)
  from wf assms(2) obtain es rc' where
    inv: "loop_inv ?h (length es) es (length es) rc'" and m: "mset es = mset (edges ?dg)" and
    res: "res = names ?h es"
    by (rule Resolve_wf_success)
  from inv have d: "distinct res" unfolding loop_inv_def res by blast
  from m have "set es = set (edges ?dg)" by (rule mset_eq_setD)
  then have "set res = set (names ?h (edges ?dg))" unfolding res names_def by simp
  also have "\<dots> = dom (edgeMap ?dg)" using wf by (rule wf_names_dom)
  also have "\<dots> = dom (edgeMap dg0) \<union> fst ` set calls" by (rule dom_edgeMap_adds)
  finally have s: "set res = dom (edgeMap dg0) \<union> fst ` set calls" .
  from d have "length res = card (set res)" by (simp add: distinct_card)
  with d s show ?thesis by simp
qed

theorem resolve_returns_every_element_once_witness:
  "wf_graph (NewDependencyGraph :: char DependencyGraph) \<and>
   (\<exists>dg'. Resolve (enum_runtime (CHR 0x00))
      (adds NewDependencyGraph
        [(CHR ''A'', []), (CHR ''B'', [CHR ''A'']), (CHR ''C'', []), (CHR ''D'', []),
         (CHR ''C'', [CHR ''A'']), (CHR ''C'', [CHR ''B''])]) =
      Inr (dg', Some [CHR ''A'', CHR ''D'', CHR ''B'', CHR ''C''], None)) \<and>
   distinct [CHR ''A'', CHR ''D'', CHR ''B'', CHR ''C''] \<and>
   set [CHR ''A'', CHR ''D'', CHR ''B'', CHR ''C''] =
     fst ` set [(CHR ''A'', []), (CHR ''B'', [CHR ''A'']), (CHR ''C'', []), (CHR ''D'', []),
         (CHR ''C'', [CHR ''A'']), (CHR ''C'', [CHR ''B''])] \<and>
   length [CHR ''A'', CHR ''D'', CHR ''B'', CHR ''C''] =
     card (fst ` set [(CHR ''A'', []), (CHR ''B'', [CHR ''A'']), (CHR ''C'', []), (CHR ''D'', []),
         (CHR ''C'', [CHR ''A'']), (CHR ''C'', [CHR ''B''])])"
proof -
  let ?calls = "[(CHR ''A'', []), (CHR ''B'', [CHR ''A'']), (CHR ''C'', []), (CHR ''D'', []),
         (CHR ''C'', [CHR ''A'']), (CHR ''C'', [CHR ''B''])]"
  let ?rt = "enum_runtime (CHR 0x00)"
  let ?res = "[CHR ''A'', CHR ''D'', CHR ''B'', CHR ''C'']"
  have wf: "wf_graph (NewDependencyGraph :: char DependencyGraph)"
    by (rule wf_NewDependencyGraph)
  have "outcome (Resolve ?rt (adds NewDependencyGraph ?calls)) = Inr (Some ?res, None)"
    by code_simp
  then obtain dg' where h: "Resolve ?rt (adds NewDependencyGraph ?calls) = Inr (dg', Some ?res, None)"
    by (blast dest: outcome_Inr)
  have "dom (edgeMap (NewDependencyGraph :: char DependencyGraph)) = {}"
    by (simp add: NewDependencyGraph_def)
  with resolve_returns_every_element_once[OF wf h] wf h show ?thesis
    by (simp only: Un_empty_left) blast
qed

section \<open>The stored sequence after a resolution\<close>

text \<open>
  C10: a successful \<^verbatim>\<open>Resolve\<close> leaves the stored edge sequence in the order of the
  result it returned (the structs and the map are untouched); the next resolution
  starts from that sequence.
\<close>

theorem resolve_stores_output_order:
  assumes "Resolve rt dg = Inr (dg', Some res, None)"
  shows "stored_names dg' = res \<and> heap dg' = heap dg \<and> edgeMap dg' = edgeMap dg"
proof -
  from Resolve_success[OF assms] obtain es where
    "dg' = dg\<lparr>edges := es\<rparr>" "res = names (heap dg) es" by blast
  then show ?thesis by (simp add: stored_names_def names_def)
qed

theorem resolve_stores_output_order_witness:
  "\<exists>dg'. Resolve (enum_runtime (CHR 0x00))
      (adds NewDependencyGraph
        [(CHR ''A'', []), (CHR ''B'', []), (CHR ''X'', [CHR ''B'']), (CHR ''Y'', [CHR ''B'']),
         (CHR ''Z'', [CHR ''A''])]) =
      Inr (dg', Some [CHR ''A'', CHR ''B'', CHR ''Z'', CHR ''Y'', CHR ''X''], None) \<and>
    stored_names (adds NewDependencyGraph
        [(CHR ''A'', []), (CHR ''B'', []), (CHR ''X'', [CHR ''B'']), (CHR ''Y'', [CHR ''B'']),
         (CHR ''Z'', [CHR ''A''])]) = [CHR ''A'', CHR ''B'', CHR ''X'', CHR ''Y'', CHR ''Z''] \<and>
    stored_names dg' = [CHR ''A'', CHR ''B'', CHR ''Z'', CHR ''Y'', CHR ''X''] \<and>
    outcome (Resolve (enum_runtime (CHR 0x00)) (Add dg' (CHR ''A'') [CHR ''B''])) =
      Inr (Some [CHR ''B'', CHR ''A'', CHR ''Y'', CHR ''X'', CHR ''Z''], None) \<and>
    outcome (Resolve (enum_runtime (CHR 0x00))
      (adds NewDependencyGraph
        [(CHR ''A'', []), (CHR ''B'', []), (CHR ''X'', [CHR ''B'']), (CHR ''Y'', [CHR ''B'']),
         (CHR ''Z'', [CHR ''A'']), (CHR ''A'', [CHR ''B''])])) =
      Inr (Some [CHR ''B'', CHR ''A'', CHR ''X'', CHR ''Y'', CHR ''Z''], None)"
proof -
  let ?g = "adds NewDependencyGraph
        [(CHR ''A'', []), (CHR ''B'', []), (CHR ''X'', [CHR ''B'']), (CHR ''Y'', [CHR ''B'']),
         (CHR ''Z'', [CHR ''A''])]"
  let ?rt = "enum_runtime (CHR 0x00)"
  let ?res = "[CHR ''A'', CHR ''B'', CHR ''Z'', CHR ''Y'', CHR ''X'']"
  have "outcome (Resolve ?rt ?g) = Inr (Some ?res, None)" by code_simp
  then obtain dg' where h: "Resolve ?rt ?g = Inr (dg', Some ?res, None)"
    by (blast dest: outcome_Inr)
  have e: "map_sum id (\<lambda>r. edges (fst r)) (Resolve ?rt ?g) = Inr [0, 1, 4, 3, 2]"
    by code_simp
  from Resolve_success[OF h] obtain es where es: "dg' = ?g\<lparr>edges := es\<rparr>" by blast
  with e h have dg': "dg' = ?g\<lparr>edges := [0, 1, 4, 3, 2]\<rparr>" by simp
  have 1: "stored_names ?g = [CHR ''A'', CHR ''B'', CHR ''X'', CHR ''Y'', CHR ''Z'']"
    by code_simp
  have 2: "outcome (Resolve ?rt (Add (?g\<lparr>edges := [0, 1, 4, 3, 2]\<rparr>) (CHR ''A'') [CHR ''B''])) =
      Inr (Some [CHR ''B'', CHR ''A'', CHR ''Y'', CHR ''X'', CHR ''Z''], None)"
    by code_simp
  have 3: "outcome (Resolve ?rt
      (adds NewDependencyGraph
        [(CHR ''A'', []), (CHR ''B'', []), (CHR ''X'', [CHR ''B'']), (CHR ''Y'', [CHR ''B'']),
         (CHR ''Z'', [CHR ''A'']), (CHR ''A'', [CHR ''B''])])) =
      Inr (Some [CHR ''B'', CHR ''A'', CHR ''X'', CHR ''Y'', CHR ''Z''], None)"
    by code_simp
  from resolve_stores_output_order[OF h] have "stored_names dg' = ?res" by blast
  with h 1 2 3 show ?thesis unfolding dg' by blast
qed

section \<open>Stable ordering\<close>

text \<open>
  C5, as the spec states it, fails on the example of the README: \<open>B\<close> is added before
  \<open>C\<close>, neither is reachable from the other along dependencies, and \<open>C\<close> comes
  before \<open>B\<close> in the result.
\<close>

lemma trancl_Domain_Range: "(x, y) \<in> r\<^sup>+ \<Longrightarrow> x \<in> Domain r \<and> y \<in> Range r"
  by (induction rule: trancl_induct) auto

theorem stable_order_counterexample:
  "stored_names (adds NewDependencyGraph
      [(CHR ''A'', []), (CHR ''B'', [CHR ''A'']), (CHR ''C'', []),
       (CHR ''D'', [CHR ''B'', CHR ''A'']), (CHR ''E'', [])]) =
     [CHR ''A'', CHR ''B'', CHR ''C'', CHR ''D'', CHR ''E''] \<and>
   outcome (Resolve (enum_runtime (CHR 0x00))
     (adds NewDependencyGraph
      [(CHR ''A'', []), (CHR ''B'', [CHR ''A'']), (CHR ''C'', []),
       (CHR ''D'', [CHR ''B'', CHR ''A'']), (CHR ''E'', [])])) =
     Inr (Some [CHR ''A'', CHR ''C'', CHR ''E'', CHR ''B'', CHR ''D''], None) \<and>
   (CHR ''B'', CHR ''C'') \<notin> (dep_rel (adds NewDependencyGraph
      [(CHR ''A'', []), (CHR ''B'', [CHR ''A'']), (CHR ''C'', []),
       (CHR ''D'', [CHR ''B'', CHR ''A'']), (CHR ''E'', [])]))\<^sup>+ \<and>
   (CHR ''C'', CHR ''B'') \<notin> (dep_rel (adds NewDependencyGraph
      [(CHR ''A'', []), (CHR ''B'', [CHR ''A'']), (CHR ''C'', []),
       (CHR ''D'', [CHR ''B'', CHR ''A'']), (CHR ''E'', [])]))\<^sup>+"
proof -
  let ?g = "adds NewDependencyGraph
      [(CHR ''A'', []), (CHR ''B'', [CHR ''A'']), (CHR ''C'', []),
       (CHR ''D'', [CHR ''B'', CHR ''A'']), (CHR ''E'', [])]"
  have 1: "stored_names ?g = [CHR ''A'', CHR ''B'', CHR ''C'', CHR ''D'', CHR ''E'']"
    by code_simp
  have 2: "outcome (Resolve (enum_runtime (CHR 0x00)) ?g) =
     Inr (Some [CHR ''A'', CHR ''C'', CHR ''E'', CHR ''B'', CHR ''D''], None)"
    by code_simp
  have r: "dep_rel ?g = {(CHR ''B'', CHR ''A''), (CHR ''D'', CHR ''B''), (CHR ''D'', CHR ''A'')}"
    unfolding dep_rel_def
    by (auto simp: adds_def Add_def NewDependencyGraph_def nth_Cons' nth_append split: if_splits)
  have "CHR ''C'' \<notin> Domain (dep_rel ?g)" "CHR ''C'' \<notin> Range (dep_rel ?g)"
    unfolding r by simp_all
  then have 3: "(CHR ''B'', CHR ''C'') \<notin> (dep_rel ?g)\<^sup>+" "(CHR ''C'', CHR ''B'') \<notin> (dep_rel ?g)\<^sup>+"
    by (blast dest: trancl_Domain_Range)+
  from 1 2 3 show ?thesis by blast
qed

text \<open>
  C5, amended: when \<^verbatim>\<open>Resolve\<close> succeeds on a well-formed graph, the result starts
  with the names of the edges that have no dependency, in the order of the stored
  sequence, and continues with the edges that have dependencies.
\<close>

theorem free_elements_first_in_stored_order:
  assumes "wf_graph dg" and "Resolve rt dg = Inr (dg', Some res, None)"
  shows "\<exists>others.
           res = names (heap dg) (filter (\<lambda>p. deps (heap dg ! p) = {}) (edges dg)) @
                 names (heap dg) others \<and>
           mset others = mset (filter (\<lambda>p. deps (heap dg ! p) \<noteq> {}) (edges dg))"
proof -
  let ?h = "heap dg"
  let ?free = "\<lambda>p. deps (heap dg ! p) = {}"
  from assms obtain es k where
    m: "mset es = mset (edges dg)" and t: "take k es = filter ?free (edges dg)" and
    res: "res = names ?h es"
    by (rule Resolve_wf_success)
  have "names ?h es = names ?h (take k es) @ names ?h (drop k es)"
    unfolding names_def by (simp flip: map_append)
  with res t have 1: "res = names ?h (filter ?free (edges dg)) @ names ?h (drop k es)" by simp
  have "mset (take k es) + mset (drop k es) = mset es"
    by (simp flip: mset_append)
  with m t have "mset (filter ?free (edges dg)) + mset (drop k es) = mset (edges dg)" by simp
  moreover have "mset (filter ?free (edges dg)) + mset (filter (\<lambda>p. \<not> ?free p) (edges dg)) =
      mset (edges dg)"
    by (simp add: mset_filter)
  ultimately have "mset (drop k es) = mset (filter (\<lambda>p. \<not> ?free p) (edges dg))"
    by (metis add_left_cancel)
  with 1 show ?thesis by blast
qed

theorem free_elements_first_in_stored_order_witness:
  "wf_graph (adds NewDependencyGraph
      [(CHR ''A'', []), (CHR ''B'', [CHR ''A'']), (CHR ''C'', []),
       (CHR ''D'', [CHR ''B'', CHR ''A'']), (CHR ''E'', [])]) \<and>
   (\<exists>dg'. Resolve (enum_runtime (CHR 0x00))
      (adds NewDependencyGraph
        [(CHR ''A'', []), (CHR ''B'', [CHR ''A'']), (CHR ''C'', []),
         (CHR ''D'', [CHR ''B'', CHR ''A'']), (CHR ''E'', [])]) =
      Inr (dg', Some [CHR ''A'', CHR ''C'', CHR ''E'', CHR ''B'', CHR ''D''], None)) \<and>
   (\<exists>others. [CHR ''A'', CHR ''C'', CHR ''E'', CHR ''B'', CHR ''D''] =
      [CHR ''A'', CHR ''C'', CHR ''E''] @
      names (heap (adds NewDependencyGraph
        [(CHR ''A'', []), (CHR ''B'', [CHR ''A'']), (CHR ''C'', []),
         (CHR ''D'', [CHR ''B'', CHR ''A'']), (CHR ''E'', [])])) others)"
proof -
  let ?g = "adds NewDependencyGraph
      [(CHR ''A'', []), (CHR ''B'', [CHR ''A'']), (CHR ''C'', []),
       (CHR ''D'', [CHR ''B'', CHR ''A'']), (CHR ''E'', [])]"
  let ?rt = "enum_runtime (CHR 0x00)"
  let ?res = "[CHR ''A'', CHR ''C'', CHR ''E'', CHR ''B'', CHR ''D'']"
  have wf: "wf_graph ?g" by (rule wf_adds[OF wf_NewDependencyGraph])
  have "outcome (Resolve ?rt ?g) = Inr (Some ?res, None)" by code_simp
  then obtain dg' where h: "Resolve ?rt ?g = Inr (dg', Some ?res, None)"
    by (blast dest: outcome_Inr)
  have f: "names (heap ?g) (filter (\<lambda>p. deps (heap ?g ! p) = {}) (edges ?g)) =
      [CHR ''A'', CHR ''C'', CHR ''E'']"
    by code_simp
  from free_elements_first_in_stored_order[OF wf h] wf h show ?thesis
    unfolding f by blast
qed

section \<open>Cycle detection\<close>

lemma topo_before:
  assumes tp: "topo h es" and d: "distinct (names h es)"
  shows "(x, y) \<in> {(name (h ! p), d) | p d. p \<in> set es \<and> d \<in> deps (h ! p)}\<^sup>+ \<Longrightarrow>
         \<exists>i j. i < j \<and> j < length es \<and> names h es ! i = y \<and> names h es ! j = x"
proof (induction rule: trancl_induct)
  case (base y)
  then obtain p where p: "p \<in> set es" "x = name (h ! p)" "y \<in> deps (h ! p)" by blast
  from p(1) obtain j where j: "j < length es" "es ! j = p" unfolding in_set_conv_nth by blast
  with tp p(3) have "y \<in> set (names h (take j es))" unfolding topo_def by blast
  then obtain i where i: "i < length (names h (take j es))" "names h (take j es) ! i = y"
    unfolding in_set_conv_nth by blast
  from i(1) j(1) have ij: "i < j" by (simp add: names_def)
  with i(2) j(1) have "names h es ! i = y" by (simp add: names_def)
  moreover from j p(2) have "names h es ! j = x" by (simp add: names_def)
  ultimately show ?case using ij j(1) by blast
next
  case (step y z)
  from step.IH obtain i j where
    ij: "i < j" "j < length es" "names h es ! i = y" "names h es ! j = x" by blast
  from step.hyps(2) obtain q where q: "q \<in> set es" "y = name (h ! q)" "z \<in> deps (h ! q)"
    by blast
  from q(1) obtain j' where j': "j' < length es" "es ! j' = q" unfolding in_set_conv_nth by blast
  with tp q(3) have "z \<in> set (names h (take j' es))" unfolding topo_def by blast
  then obtain i' where i': "i' < length (names h (take j' es))" "names h (take j' es) ! i' = z"
    unfolding in_set_conv_nth by blast
  from i'(1) j'(1) have lt: "i' < j'" by (simp add: names_def)
  with i'(2) j'(1) have z: "names h es ! i' = z" by (simp add: names_def)
  from j' q(2) have "names h es ! j' = y" by (simp add: names_def)
  with ij(3) have "names h es ! j' = names h es ! i" by simp
  moreover from j'(1) ij(1,2) have "j' < length (names h es)" "i < length (names h es)"
    by (simp_all add: names_def)
  ultimately have "j' = i" using d by (simp add: nth_eq_iff_index_eq)
  with lt ij(1) have "i' < j" by simp
  with z ij(2,4) show ?case by blast
qed

lemma topo_acyclic:
  assumes "topo h es" and "distinct (names h es)"
  shows "(x, x) \<notin> {(name (h ! p), d) | p d. p \<in> set es \<and> d \<in> deps (h ! p)}\<^sup>+"
proof
  assume "(x, x) \<in> {(name (h ! p), d) | p d. p \<in> set es \<and> d \<in> deps (h ! p)}\<^sup>+"
  from topo_before[OF assms this] obtain i j where
    ij: "i < j" "j < length es" "names h es ! i = x" "names h es ! j = x" by blast
  from ij(1,2) have l: "i < length (names h es)" "j < length (names h es)"
    by (simp_all add: names_def)
  from ij(3,4) have "names h es ! i = names h es ! j" by simp
  with nth_eq_iff_index_eq[OF assms(2) l] ij(1) show False by simp
qed

text \<open>
  C3, as the spec states it, fails: the graph built by \<^verbatim>\<open>Add("A", "A", "X")\<close> has a
  cycle, and \<^verbatim>\<open>Resolve\<close> fails with the unknown dependency \<open>X\<close>, an error that does not
  match \<open>ErrCircularDependency\<close>.
\<close>

theorem cycle_detection_counterexample:
  "cyclic (adds NewDependencyGraph [(CHR ''A'', [CHR ''A'', CHR ''X''])]) \<and>
   outcome (Resolve (enum_runtime (CHR 0x00))
     (adds NewDependencyGraph [(CHR ''A'', [CHR ''A'', CHR ''X''])])) =
     Inr (None, Some (ValidatingDependencyGraph
       (LookingUpDependency (CHR ''X'') ErrUnknownDependency))) \<and>
   \<not> errors_Is (ValidatingDependencyGraph
       (LookingUpDependency (CHR ''X'') ErrUnknownDependency)) ErrCircularDependency"
proof -
  let ?g = "adds NewDependencyGraph [(CHR ''A'', [CHR ''A'', CHR ''X''])]"
  have "(CHR ''A'', CHR ''A'') \<in> dep_rel ?g"
    unfolding dep_rel_def
    by (simp add: adds_def Add_def NewDependencyGraph_def)
  then have 1: "cyclic ?g" unfolding cyclic_def by blast
  have 2: "outcome (Resolve (enum_runtime (CHR 0x00)) ?g) =
     Inr (None, Some (ValidatingDependencyGraph
       (LookingUpDependency (CHR ''X'') ErrUnknownDependency)))"
    by code_simp
  have 3: "\<not> errors_Is (ValidatingDependencyGraph
       (LookingUpDependency (CHR ''X'') ErrUnknownDependency)) ErrCircularDependency"
    by simp
  from 1 2 3 show ?thesis by blast
qed

text \<open>
  C3, amended: \<^verbatim>\<open>Resolve\<close> on a well-formed graph with a dependency cycle returns an
  error and a \<^verbatim>\<open>nil\<close> slice; the error is \<open>ErrCircularDependency\<close> when every
  dependency is a known name, and wraps \<open>ErrUnknownDependency\<close> otherwise.
\<close>

theorem cycle_makes_resolve_fail:
  assumes wf: "wf_graph dg" and ro: "range_ok rt dg" and cyc: "cyclic dg"
  shows "\<exists>dg' err. Resolve rt dg = Inr (dg', None, Some err) \<and>
           (if unknown_deps dg = {}
            then err = ErrCircularDependency \<and> errors_Is err ErrCircularDependency
            else errors_Is err ErrUnknownDependency)"
proof (cases "unknown_deps dg = {}")
  case True
  with validate_None[OF ro] have v: "validate rt dg = None" by simp
  from Resolve_wf[OF wf v] obtain es fmax rc' where
    inv: "loop_inv (heap dg) fmax es fmax rc'" and m: "mset es = mset (edges dg)" and
    r: "Resolve rt dg =
          Inr (dg\<lparr>edges := es\<rparr>,
               if fmax = length es then (Some (names (heap dg) es), None)
               else (None, Some ErrCircularDependency))"
    by blast
  have "fmax \<noteq> length es"
  proof
    assume "fmax = length es"
    with inv have tp: "topo (heap dg) es" and d: "distinct (names (heap dg) es)"
      unfolding loop_inv_def by simp_all
    from m have "set es = set (edges dg)" by (rule mset_eq_setD)
    then have "dep_rel dg =
        {(name (heap dg ! p), d) | p d. p \<in> set es \<and> d \<in> deps (heap dg ! p)}"
      unfolding dep_rel_def by simp
    with cyc topo_acyclic[OF tp d] show False unfolding cyclic_def by simp
  qed
  with r have "Resolve rt dg = Inr (dg\<lparr>edges := es\<rparr>, None, Some ErrCircularDependency)"
    by simp
  with True show ?thesis by simp
next
  case False
  with validate_None[OF ro] obtain e where v: "validate rt dg = Some e"
    by (cases "validate rt dg") auto
  from validate_Some[OF ro v] obtain d where
    e: "e = LookingUpDependency d ErrUnknownDependency" by blast
  from v have "Resolve rt dg = Inr (dg, None, Some (ValidatingDependencyGraph e))"
    by (simp add: Resolve_def ResolveIter_def Resolve_body_def)
  with e False show ?thesis by simp
qed

theorem cycle_makes_resolve_fail_witness:
  "wf_graph (adds NewDependencyGraph
      [(CHR ''A'', [CHR ''B'']), (CHR ''B'', [CHR ''C'']), (CHR ''C'', [CHR ''D'']),
       (CHR ''D'', [CHR ''A''])]) \<and>
   range_ok (enum_runtime (CHR 0x00)) (adds NewDependencyGraph
      [(CHR ''A'', [CHR ''B'']), (CHR ''B'', [CHR ''C'']), (CHR ''C'', [CHR ''D'']),
       (CHR ''D'', [CHR ''A''])]) \<and>
   cyclic (adds NewDependencyGraph
      [(CHR ''A'', [CHR ''B'']), (CHR ''B'', [CHR ''C'']), (CHR ''C'', [CHR ''D'']),
       (CHR ''D'', [CHR ''A''])]) \<and>
   unknown_deps (adds NewDependencyGraph
      [(CHR ''A'', [CHR ''B'']), (CHR ''B'', [CHR ''C'']), (CHR ''C'', [CHR ''D'']),
       (CHR ''D'', [CHR ''A''])]) = {} \<and>
   (\<exists>dg'. Resolve (enum_runtime (CHR 0x00)) (adds NewDependencyGraph
      [(CHR ''A'', [CHR ''B'']), (CHR ''B'', [CHR ''C'']), (CHR ''C'', [CHR ''D'']),
       (CHR ''D'', [CHR ''A''])]) = Inr (dg', None, Some ErrCircularDependency))"
proof -
  let ?g = "adds NewDependencyGraph
      [(CHR ''A'', [CHR ''B'']), (CHR ''B'', [CHR ''C'']), (CHR ''C'', [CHR ''D'']),
       (CHR ''D'', [CHR ''A''])]"
  let ?rt = "enum_runtime (CHR 0x00)"
  have wf: "wf_graph ?g" by (rule wf_adds[OF wf_NewDependencyGraph])
  have ro: "range_ok ?rt ?g" by (rule range_ok_enum_runtime)
  have r: "(CHR ''A'', CHR ''B'') \<in> dep_rel ?g" "(CHR ''B'', CHR ''C'') \<in> dep_rel ?g"
    "(CHR ''C'', CHR ''D'') \<in> dep_rel ?g" "(CHR ''D'', CHR ''A'') \<in> dep_rel ?g"
    unfolding dep_rel_def
    by (simp_all add: adds_def Add_def NewDependencyGraph_def) force+
  then have "(CHR ''A'', CHR ''A'') \<in> (dep_rel ?g)\<^sup>+"
    by (meson trancl.r_into_trancl trancl_trans)
  then have cyc: "cyclic ?g" unfolding cyclic_def by blast
  have "validate ?rt ?g = None" by code_simp
  with validate_None[OF ro] have u: "unknown_deps ?g = {}" by simp
  from cycle_makes_resolve_fail[OF wf ro cyc] u wf ro cyc show ?thesis by auto
qed

lemma wf_ResolveIter:
  assumes "wf_graph dg" and "ResolveIter rt dg yield s = Inr (dg', s')"
  shows "wf_graph dg'"
proof -
  from ResolveIter_frame[OF assms(2)] have
    f: "heap dg' = heap dg" "edgeMap dg' = edgeMap dg" "mset (edges dg') = mset (edges dg)"
    by simp_all
  from f(3) have "set (edges dg') = set (edges dg)" by (rule mset_eq_setD)
  moreover from f(3) have "distinct (edges dg') \<longleftrightarrow> distinct (edges dg)"
    by (rule mset_eq_imp_distinct_iff)
  ultimately show ?thesis using assms(1) f(1,2) unfolding wf_graph_def by simp
qed

section \<open>Adding dependencies in several calls\<close>









section \<open>A graph built by calls of Add alone\<close>

text \<open>
  The names of a sequence of calls of \<^verbatim>\<open>Add\<close> in the order of their first occurrence,
  and the dependencies the calls accumulate for a name.
\<close>

definition insertion_order :: "('a \<times> 'a list) list \<Rightarrow> 'a list" where
  "insertion_order calls = rev (remdups (rev (map fst calls)))"

definition accumulated :: "('a \<times> 'a list) list \<Rightarrow> 'a \<Rightarrow> 'a set" where
  "accumulated calls n = (\<Union>c \<in> set calls. if fst c = n then set (snd c) else {})"

text \<open>The graph that holds the names \<open>ns\<close> in this order, each with the dependencies \<open>acc\<close>.\<close>

definition graph_of :: "'a list \<Rightarrow> ('a \<Rightarrow> 'a set) \<Rightarrow> 'a DependencyGraph" where
  "graph_of ns acc =
     \<lparr>heap = map (\<lambda>n. \<lparr>name = n, deps = acc n\<rparr>) ns,
      edges = [0..<length ns],
      edgeMap = map_of (zip ns [0..<length ns])\<rparr>"

lemma insertion_order_snoc:
  "insertion_order (calls @ [(n, dl)]) =
     (if n \<in> fst ` set calls then insertion_order calls else insertion_order calls @ [n])"
  by (simp add: insertion_order_def)

lemma insertion_order_set: "set (insertion_order calls) = fst ` set calls"
  by (simp add: insertion_order_def)

lemma insertion_order_distinct: "distinct (insertion_order calls)"
  by (simp add: insertion_order_def)

lemma accumulated_snoc:
  "accumulated (calls @ [(n, dl)]) = (accumulated calls)(n := accumulated calls n \<union> set dl)"
  by (rule ext) (auto simp: accumulated_def split: if_splits)



lemma accumulated_unknown: "n \<notin> fst ` set calls \<Longrightarrow> accumulated calls n = {}"
  by (auto simp: accumulated_def)

lemma adds_snoc: "adds dg (calls @ [(n, dl)]) = Add (adds dg calls) n dl"
  by (simp add: adds_def)

lemma graph_of_Add_known:
  assumes d: "distinct ns" and n: "n \<in> set ns"
  shows "Add (graph_of ns acc) n dl = graph_of ns (acc(n := acc n \<union> set dl))"
proof -
  from n obtain i where i: "i < length ns" "ns ! i = n" unfolding in_set_conv_nth by blast
  have "map_of (zip ns [0..<length ns]) (ns ! i) = Some ([0..<length ns] ! i)"
    using d i(1) by (intro map_of_zip_nth) simp_all
  with i have e: "edgeMap (graph_of ns acc) n = Some i" by (simp add: graph_of_def)
  let ?f = "\<lambda>m. \<lparr>name = m, deps = acc m\<rparr>"
  let ?f' = "\<lambda>m. \<lparr>name = m, deps = (acc(n := acc n \<union> set dl)) m\<rparr>"
  have "(map ?f ns)[i := add_deps dl (map ?f ns ! i)] = map ?f' ns"
  proof (rule nth_equalityI)
    show "length ((map ?f ns)[i := add_deps dl (map ?f ns ! i)]) = length (map ?f' ns)" by simp
  next
    fix j assume "j < length ((map ?f ns)[i := add_deps dl (map ?f ns ! i)])"
    then have j: "j < length ns" by simp
    show "(map ?f ns)[i := add_deps dl (map ?f ns ! i)] ! j = map ?f' ns ! j"
    proof (cases "j = i")
      case True
      with i show ?thesis by (simp add: add_deps_eq)
    next
      case False
      with d i j have "ns ! j \<noteq> n" by (auto simp: nth_eq_iff_index_eq)
      with False j show ?thesis by simp
    qed
  qed
  then show ?thesis unfolding Add_existing[OF e] by (simp add: graph_of_def)
qed

lemma graph_of_Add_new:
  assumes n: "n \<notin> set ns" and a: "acc n = {}"
  shows "Add (graph_of ns acc) n dl = graph_of (ns @ [n]) (acc(n := acc n \<union> set dl))"
proof -
  let ?m = "map_of (zip ns [0..<length ns])"
  from n have none: "?m n = None"
    by (auto simp: map_of_eq_None_iff dest: set_zip_leftD)
  then have e: "edgeMap (graph_of ns acc) n = None" by (simp add: graph_of_def)
  have z: "zip (ns @ [n]) [0..<Suc (length ns)] = zip ns [0..<length ns] @ [(n, length ns)]"
    by simp
  have m: "map_of (zip (ns @ [n]) [0..<Suc (length ns)]) = ?m(n \<mapsto> length ns)"
  proof (rule ext)
    fix k
    show "map_of (zip (ns @ [n]) [0..<Suc (length ns)]) k = (?m(n \<mapsto> length ns)) k"
    proof (cases "k = n")
      case True
      have "map_of (zip ns [0..<length ns] @ [(n, length ns)]) n = Some (length ns)"
        by (simp only: map_of_append map_add_def none option.case) simp
      with True show ?thesis unfolding z by simp
    next
      case False
      have "map_of (zip ns [0..<length ns] @ [(n, length ns)]) k = ?m k"
      proof (cases "?m k")
        case None
        have "map_of [(n, length ns)] k = None" using False by simp
        then show ?thesis by (simp only: map_of_append map_add_def None option.case)
      next
        case (Some v)
        then show ?thesis by (simp only: map_of_append map_add_def option.case)
      qed
      with False show ?thesis unfolding z by simp
    qed
  qed
  have h: "map (\<lambda>m. \<lparr>name = m, deps = (acc(n := acc n \<union> set dl)) m\<rparr>) ns =
      map (\<lambda>m. \<lparr>name = m, deps = acc m\<rparr>) ns"
    using n by (intro map_cong) auto
  show ?thesis
    unfolding Add_new[OF e]
    using a m h by (simp add: graph_of_def add_deps_eq)
qed

lemma adds_graph_of:
  "adds NewDependencyGraph calls = graph_of (insertion_order calls) (accumulated calls)"
proof (induction calls rule: rev_induct)
  case Nil
  show ?case
    by (simp add: adds_Nil graph_of_def NewDependencyGraph_def insertion_order_def)
next
  case (snoc c calls)
  obtain n dl where c: "c = (n, dl)" by (cases c)
  let ?ns = "insertion_order calls" and ?acc = "accumulated calls"
  have step: "adds NewDependencyGraph (calls @ [c]) = Add (graph_of ?ns ?acc) n dl"
    unfolding c adds_snoc snoc.IH ..
  have acc: "accumulated (calls @ [c]) = ?acc(n := ?acc n \<union> set dl)"
    unfolding c by (rule accumulated_snoc)
  show ?case
  proof (cases "n \<in> fst ` set calls")
    case True
    then have "n \<in> set ?ns" by (simp add: insertion_order_set)
    from graph_of_Add_known[of ?ns n ?acc dl, OF insertion_order_distinct this]
    have "Add (graph_of ?ns ?acc) n dl = graph_of ?ns (?acc(n := ?acc n \<union> set dl))" .
    moreover from True have "insertion_order (calls @ [c]) = ?ns"
      unfolding c by (simp add: insertion_order_snoc)
    ultimately show ?thesis unfolding step acc by (simp only:)
  next
    case False
    then have "n \<notin> set ?ns" by (simp add: insertion_order_set)
    from graph_of_Add_new[of n ?ns ?acc dl, OF this accumulated_unknown[OF False]]
    have "Add (graph_of ?ns ?acc) n dl = graph_of (?ns @ [n]) (?acc(n := ?acc n \<union> set dl))" .
    moreover from False have "insertion_order (calls @ [c]) = ?ns @ [n]"
      unfolding c by (simp add: insertion_order_snoc)
    ultimately show ?thesis unfolding step acc by (simp only:)
  qed
qed

lemma stored_names_graph_of: "stored_names (graph_of ns acc) = ns"
proof (rule nth_equalityI)
  show "length (stored_names (graph_of ns acc)) = length ns"
    by (simp add: stored_names_def graph_of_def)
next
  fix i assume "i < length (stored_names (graph_of ns acc))"
  then have "i < length ns" by (simp add: stored_names_def graph_of_def)
  then show "stored_names (graph_of ns acc) ! i = ns ! i"
    by (simp add: stored_names_def graph_of_def)
qed

lemma stored_names_adds:
  "stored_names (adds NewDependencyGraph calls) = insertion_order calls"
  unfolding adds_graph_of by (rule stored_names_graph_of)





end
